theory Spec2Isabelle
  imports Main "HOL-Library.AList" "HOL-Library.Multiset"
begin

section \<open>Supply-chain graph builder of \<^verbatim>\<open>backend/posts/router.py\<close>\<close>

text \<open>
  The development embeds \<^verbatim>\<open>build_supply_chain_graph\<close> (router.py, lines 607-754) and its
  nested helper \<^verbatim>\<open>trace_to_roots\<close>. Python dictionaries keep insertion order, so a dictionary
  is an association list with distinct keys whose entries are overwritten in place
  (\<^const>\<open>AList.update\<close>). Python integers are \<^typ>\<open>int\<close>. The two unguarded subscripts
  \<^verbatim>\<open>crate_map[...]\<close> of the source raise \<^verbatim>\<open>KeyError\<close> on a missing key; they are the
  \<open>Inl\<close> branches of the model. The recursive helper is embedded twice: as a total function, and
  with the interpreter's bound on nested calls as a parameter, where exceeding the bound is the
  error \<^verbatim>\<open>RecursionError\<close>.
\<close>

subsection \<open>Data model\<close>

text \<open>One element of the input list \<^verbatim>\<open>crates\<close>: the dictionary built by
  \<^verbatim>\<open>fetch_all_crate_accounts\<close> (router.py, lines 572-585).\<close>

record crate_data =
  pubkey :: string
  crate_id :: string
  authority :: string
  weight :: int
  timestamp :: int
  hash :: string
  ipfs_cid :: string
  operation_type :: string
  parent_crates :: "string list"
  child_crates :: "string list"
  parent_weights :: "int list"
  split_distribution :: "int list option"

text \<open>\<^verbatim>\<open>class CrateNode\<close> (router.py, lines 212-227): the fields of the input dictionary and
  the two computed fields.\<close>

record crate_node = crate_data +
  is_root :: bool
  depth :: int

type_synonym crate_map = "(string \<times> crate_node) list"

text \<open>\<^verbatim>\<open>class SupplyChainGraph\<close> (router.py, lines 230-235).\<close>

record supply_chain_graph =
  total_crates :: int
  root_crates :: "string list"
  crates :: crate_map
  lineages :: "(string \<times> string list) list"

datatype error = KeyError string | RecursionError

subsection \<open>First pass: one node per record\<close>

text \<open>\<^verbatim>\<open>root_crates\<close> is a Python set. Its members are kept in a duplicate-free list, in the
  order of their first insertion. Python does not specify the order in which a set is iterated;
  the only iteration over it seeds the breadth-first pass, whose result is shown below not to
  depend on that order.\<close>

definition set_add :: "string \<Rightarrow> string list \<Rightarrow> string list" where
  "set_add x xs = (if x \<in> set xs then xs else xs @ [x])"

definition make_node :: "crate_data \<Rightarrow> crate_node" where
  "make_node crate =
     crate_data.extend crate
       (crate_node.fields (length (parent_crates crate) = 0) 0)"

fun create_nodes :: "crate_data list \<Rightarrow> crate_map \<times> string list \<Rightarrow> crate_map \<times> string list" where
  "create_nodes [] acc = acc"
| "create_nodes (crate # rest) (cm, roots) =
     create_nodes rest
       (AList.update (pubkey crate) (make_node crate) cm,
        if is_root (make_node crate) then set_add (pubkey crate) roots else roots)"

subsection \<open>Second pass: breadth-first depths\<close>

record bfs_state =
  crate_map :: crate_map
  visited :: "string set"
  queue :: "(string \<times> int) list"

text \<open>The assignment \<^verbatim>\<open>crate_map[k].depth = d\<close> on a key that is present.\<close>

definition set_depth :: "string \<Rightarrow> int \<Rightarrow> crate_map \<Rightarrow> crate_map" where
  "set_depth k d cm = AList.map_entry k (\<lambda>node. node\<lparr>depth := d\<rparr>) cm"

fun seed_roots :: "string list \<Rightarrow> bfs_state \<Rightarrow> error + bfs_state" where
  "seed_roots [] s = Inr s"
| "seed_roots (root_pubkey # rest) s =
     (case map_of (crate_map s) root_pubkey of
        None \<Rightarrow> Inl (KeyError root_pubkey)
      | Some _ \<Rightarrow>
          seed_roots rest
            \<lparr>crate_map = set_depth root_pubkey 0 (crate_map s),
             visited = insert root_pubkey (visited s),
             queue = queue s @ [(root_pubkey, 0)]\<rparr>)"

text \<open>The inner loop \<^verbatim>\<open>for child_pubkey in current_node.child_crates\<close> (lines 669-674).\<close>

fun visit_children :: "int \<Rightarrow> string list \<Rightarrow> bfs_state \<Rightarrow> bfs_state" where
  "visit_children d [] s = s"
| "visit_children d (child_pubkey # rest) s =
     visit_children d rest
       (if map_of (crate_map s) child_pubkey \<noteq> None \<and> child_pubkey \<notin> visited s
        then \<lparr>crate_map = set_depth child_pubkey (d + 1) (crate_map s),
              visited = insert child_pubkey (visited s),
              queue = queue s @ [(child_pubkey, d + 1)]\<rparr>
        else s)"

lemma keys_set_depth: "map fst (set_depth k d cm) = map fst cm"
  unfolding set_depth_def by (induction cm) auto

lemma visit_children_keys: "map fst (crate_map (visit_children d cs s)) = map fst (crate_map s)"
  by (induction cs arbitrary: s) (auto simp: keys_set_depth)

lemma map_of_set_depth_None: "map_of (set_depth k d cm) x = None \<longleftrightarrow> map_of cm x = None"
  unfolding set_depth_def by (induction cm) auto

lemma visit_children_measure:
  "card (set (map fst (crate_map (visit_children d cs s))) - visited (visit_children d cs s))
     + length (queue (visit_children d cs s))
   = card (set (map fst (crate_map s)) - visited s) + length (queue s)"
proof (induction cs arbitrary: s)
  case Nil
  show ?case by simp
next
  case (Cons c cs)
  show ?case
  proof (cases "map_of (crate_map s) c \<noteq> None \<and> c \<notin> visited s")
    case False
    then show ?thesis using Cons.IH [of s] by auto
  next
    case True
    let ?K = "set (map fst (crate_map s))"
    let ?s = "\<lparr>crate_map = set_depth c (d + 1) (crate_map s),
              visited = insert c (visited s),
              queue = queue s @ [(c, d + 1)]\<rparr>"
    from True have cK: "c \<in> ?K"
      by (metis map_of_eq_None_iff set_map)
    have "?K - insert c (visited s) = (?K - visited s) - {c}" by blast
    moreover have "c \<in> ?K - visited s" using cK True by simp
    moreover have "finite (?K - visited s)" by simp
    ultimately have "card (?K - insert c (visited s)) + 1 = card (?K - visited s)"
      using card.remove [of "?K - visited s" c] by simp
    then have "card (set (map fst (crate_map ?s)) - visited ?s) + length (queue ?s)
       = card (?K - visited s) + length (queue s)"
      by (simp add: keys_set_depth)
    moreover have "visit_children d (c # cs) s = visit_children d cs ?s"
      using True by simp
    ultimately show ?thesis using Cons.IH [of ?s] by simp
  qed
qed

text \<open>The loop \<^verbatim>\<open>while queue\<close> (lines 664-674).\<close>

function bfs :: "bfs_state \<Rightarrow> error + bfs_state" where
  "bfs s =
     (case queue s of
        [] \<Rightarrow> Inr s
      | (current_pubkey, d) # rest \<Rightarrow>
          (case map_of (crate_map s) current_pubkey of
             None \<Rightarrow> Inl (KeyError current_pubkey)
           | Some current_node \<Rightarrow>
               bfs (visit_children d (child_crates current_node) (s\<lparr>queue := rest\<rparr>))))"
  by pat_completeness auto
termination
proof (relation "measure (\<lambda>s. card (set (map fst (crate_map s)) - visited s) + length (queue s))")
  show "wf (measure (\<lambda>s. card (set (map fst (crate_map s)) - visited s) + length (queue s)))"
    by simp
next
  fix s :: bfs_state and x21 x22 current_pubkey d current_node
  assume q: "queue s = x21 # x22"
  show "(visit_children d (child_crates current_node) (s\<lparr>queue := x22\<rparr>), s)
        \<in> measure (\<lambda>s. card (set (map fst (crate_map s)) - visited s) + length (queue s))"
    using q by (simp add: visit_children_measure del: set_map)
qed

declare bfs.simps [simp del]

subsection \<open>Unvisited nodes\<close>

text \<open>\<^verbatim>\<open>min(iterable, default=d)\<close>: the smallest element, \<open>d\<close> for an empty iterable.\<close>

definition min_default :: "int list \<Rightarrow> int \<Rightarrow> int" where
  "min_default xs d = (case xs of [] \<Rightarrow> d | x # rest \<Rightarrow> fold min rest x)"

text \<open>The generator \<^verbatim>\<open>(crate_map[p].depth for p in node.parent_crates if p in crate_map)\<close>.\<close>

definition parent_depths :: "crate_map \<Rightarrow> string list \<Rightarrow> int list" where
  "parent_depths cm ps =
     concat (map (\<lambda>p. case map_of cm p of None \<Rightarrow> [] | Some n \<Rightarrow> [depth n]) ps)"

text \<open>The body of the loop \<^verbatim>\<open>for pubkey, node in crate_map.items()\<close> (lines 677-690). The
  loop assigns to fields of the node objects only, so the keys it runs over are those of the
  dictionary before the loop, and \<open>node\<close> is the current value under \<open>pubkey\<close>.\<close>

definition handle_unvisited_step ::
  "string set \<Rightarrow> string \<Rightarrow> crate_map \<times> string list \<Rightarrow> crate_map \<times> string list" where
  "handle_unvisited_step vis pk acc =
     (case acc of (cm, roots) \<Rightarrow>
        (case map_of cm pk of
           None \<Rightarrow> (cm, roots)
         | Some node \<Rightarrow>
             if pk \<notin> vis then
               if parent_crates node \<noteq> [] then
                 (let min_parent_depth = min_default (parent_depths cm (parent_crates node)) (- 1)
                  in (set_depth pk (if min_parent_depth \<ge> 0 then min_parent_depth + 1 else 0) cm,
                      roots))
               else
                 (AList.map_entry pk (\<lambda>n. n\<lparr>is_root := True, depth := 0\<rparr>) cm,
                  set_add pk roots)
             else (cm, roots)))"

definition handle_unvisited ::
  "string set \<Rightarrow> crate_map \<times> string list \<Rightarrow> crate_map \<times> string list" where
  "handle_unvisited vis acc = fold (handle_unvisited_step vis) (map fst (fst acc)) acc"

subsection \<open>Third pass: lineage paths\<close>

text \<open>The nested function \<^verbatim>\<open>trace_to_roots\<close> (lines 695-737); \<open>cm\<close> is the dictionary
  \<^verbatim>\<open>crate_map\<close> of the enclosing scope. Every recursive call receives a copy of
  \<^verbatim>\<open>visited_path\<close> taken after \<^verbatim>\<open>pubkey\<close> was added, so the set is passed by value.\<close>

function trace_to_roots :: "crate_map \<Rightarrow> string \<Rightarrow> string set \<Rightarrow> string list list" where
  "trace_to_roots cm pk vpath =
     (if pk \<in> vpath then []
      else
        (case map_of cm pk of
           None \<Rightarrow> []
         | Some node \<Rightarrow>
             if is_root node then [[pk]]
             else if parent_crates node = [] then [[pk]]
             else
               (let all_paths =
                      concat (map (\<lambda>parent_pubkey.
                                map (\<lambda>parent_path. pk # parent_path)
                                  (filter (\<lambda>parent_path. parent_path \<noteq> [])
                                     (trace_to_roots cm parent_pubkey (insert pk vpath))))
                              (parent_crates node))
                in if all_paths = [] then [[pk]] else all_paths)))"
  by pat_completeness auto
termination
proof (relation "measure (\<lambda>(cm, k, V). card (set (map fst cm) - V))")
  show "wf (measure (\<lambda>(cm, k, V). card (set (map fst cm) - V)))"
    by simp
next
  fix cm :: crate_map and pk :: string and vpath :: "string set"
    and node :: crate_node and parent_pubkey :: string
  assume nv: "pk \<notin> vpath" and look: "map_of cm pk = Some node"
  let ?K = "set (map fst cm)"
  have "pk \<in> ?K"
    using look by (metis map_of_eq_None_iff option.distinct(1) set_map)
  then have "pk \<in> ?K - vpath" using nv by simp
  moreover have "finite (?K - vpath)" by simp
  moreover have "?K - insert pk vpath = (?K - vpath) - {pk}" by blast
  ultimately have "card (?K - insert pk vpath) < card (?K - vpath)"
    using card.remove [of "?K - vpath" pk] by simp
  then show "((cm, parent_pubkey, insert pk vpath), cm, pk, vpath)
             \<in> measure (\<lambda>(cm, k, V). card (set (map fst cm) - V))"
    by simp
qed

declare trace_to_roots.simps [simp del]

text \<open>\<^verbatim>\<open>min(paths, key=len)\<close> on a non-empty list: Python keeps the first element whose key
  is not exceeded, and replaces it only by an element with a strictly smaller key.\<close>

definition min_by_len :: "string list \<Rightarrow> string list list \<Rightarrow> string list" where
  "min_by_len p0 rest = fold (\<lambda>p best. if length p < length best then p else best) rest p0"

definition lineage_of :: "crate_map \<Rightarrow> string \<Rightarrow> string list" where
  "lineage_of cm pk =
     (case trace_to_roots cm pk {} of
        [] \<Rightarrow> [pk]
      | p # ps \<Rightarrow> min_by_len p ps)"

text \<open>The loop \<^verbatim>\<open>for pubkey in crate_map\<close> (lines 741-747), assigning \<^verbatim>\<open>lineages[pubkey]\<close>.\<close>

definition build_lineages :: "crate_map \<Rightarrow> (string \<times> string list) list" where
  "build_lineages cm =
     fold (\<lambda>pk lin. AList.update pk (lineage_of cm pk) lin) (map fst cm) []"

subsection \<open>The builder\<close>

definition build_supply_chain_graph :: "crate_data list \<Rightarrow> error + supply_chain_graph" where
  "build_supply_chain_graph crate_list =
     (case create_nodes crate_list ([], []) of (cm0, roots0) \<Rightarrow>
        (case seed_roots roots0 \<lparr>crate_map = cm0, visited = {}, queue = []\<rparr> of
           Inl e \<Rightarrow> Inl e
         | Inr s0 \<Rightarrow>
             (case bfs s0 of
                Inl e \<Rightarrow> Inl e
              | Inr s1 \<Rightarrow>
                  (case handle_unvisited (visited s1) (crate_map s1, roots0) of (cm, roots) \<Rightarrow>
                     Inr \<lparr>total_crates = int (length cm),
                          root_crates = roots,
                          crates = cm,
                          lineages = build_lineages cm\<rparr>))))"

subsection \<open>The builder under the interpreter's recursion limit\<close>

text \<open>CPython raises \<^verbatim>\<open>RecursionError\<close> when the stack of Python calls grows beyond
  \<^verbatim>\<open>sys.getrecursionlimit()\<close>, 1000 unless the program changes it; nothing in the repository
  does. \<^verbatim>\<open>trace_to_roots\<close> calls itself once per parent hop (line 725), while every other part
  of the builder is a loop. In the following embedding \<open>frames\<close> is the number of nested
  activations of \<^verbatim>\<open>trace_to_roots\<close> that the interpreter still permits where the lineage loop
  calls it (line 742): the limit less the calls already on the stack. An activation that would
  exceed it raises; the source catches nothing, so the exception leaves every enclosing
  activation, the lineage loop and the builder.\<close>

text \<open>The results of the calls made by one loop, in order: the first exception ends the
  loop.\<close>

fun collect_results :: "(error + 'a) list \<Rightarrow> error + 'a list" where
  "collect_results [] = Inr []"
| "collect_results (r # rs) =
     (case r of
        Inl e \<Rightarrow> Inl e
      | Inr x \<Rightarrow> (case collect_results rs of Inl e \<Rightarrow> Inl e | Inr xs \<Rightarrow> Inr (x # xs)))"

fun trace_to_roots_frames ::
  "nat \<Rightarrow> crate_map \<Rightarrow> string \<Rightarrow> string set \<Rightarrow> error + string list list" where
  "trace_to_roots_frames 0 cm pk vpath = Inl RecursionError"
| "trace_to_roots_frames (Suc frames) cm pk vpath =
     (if pk \<in> vpath then Inr []
      else
        (case map_of cm pk of
           None \<Rightarrow> Inr []
         | Some node \<Rightarrow>
             if is_root node then Inr [[pk]]
             else if parent_crates node = [] then Inr [[pk]]
             else
               (case collect_results
                       (map (\<lambda>parent_pubkey.
                               trace_to_roots_frames frames cm parent_pubkey (insert pk vpath))
                          (parent_crates node)) of
                  Inl e \<Rightarrow> Inl e
                | Inr results \<Rightarrow>
                    (let all_paths =
                           concat (map (\<lambda>parent_paths.
                                     map (\<lambda>parent_path. pk # parent_path)
                                       (filter (\<lambda>parent_path. parent_path \<noteq> []) parent_paths))
                                   results)
                     in Inr (if all_paths = [] then [[pk]] else all_paths)))))"

definition lineage_of_frames :: "nat \<Rightarrow> crate_map \<Rightarrow> string \<Rightarrow> error + string list" where
  "lineage_of_frames frames cm pk =
     (case trace_to_roots_frames frames cm pk {} of
        Inl e \<Rightarrow> Inl e
      | Inr [] \<Rightarrow> Inr [pk]
      | Inr (p # ps) \<Rightarrow> Inr (min_by_len p ps))"

definition build_lineages_frames ::
  "nat \<Rightarrow> crate_map \<Rightarrow> error + (string \<times> string list) list" where
  "build_lineages_frames frames cm =
     fold (\<lambda>pk acc.
             case acc of
               Inl e \<Rightarrow> Inl e
             | Inr lin \<Rightarrow>
                 (case lineage_of_frames frames cm pk of
                    Inl e \<Rightarrow> Inl e
                  | Inr l \<Rightarrow> Inr (AList.update pk l lin)))
       (map fst cm) (Inr [])"

definition build_supply_chain_graph_frames ::
  "nat \<Rightarrow> crate_data list \<Rightarrow> error + supply_chain_graph" where
  "build_supply_chain_graph_frames frames crate_list =
     (case create_nodes crate_list ([], []) of (cm0, roots0) \<Rightarrow>
        (case seed_roots roots0 \<lparr>crate_map = cm0, visited = {}, queue = []\<rparr> of
           Inl e \<Rightarrow> Inl e
         | Inr s0 \<Rightarrow>
             (case bfs s0 of
                Inl e \<Rightarrow> Inl e
              | Inr s1 \<Rightarrow>
                  (case handle_unvisited (visited s1) (crate_map s1, roots0) of (cm, roots) \<Rightarrow>
                     (case build_lineages_frames frames cm of
                        Inl e \<Rightarrow> Inl e
                      | Inr lin \<Rightarrow>
                          Inr \<lparr>total_crates = int (length cm),
                               root_crates = roots,
                               crates = cm,
                               lineages = lin\<rparr>)))))"

text \<open>Readers of the result: \<^verbatim>\<open>graph.crates[k].depth\<close>, \<^verbatim>\<open>graph.crates[k].is_root\<close> and
  \<^verbatim>\<open>graph.lineages[k]\<close>.\<close>

definition node_of :: "supply_chain_graph \<Rightarrow> string \<Rightarrow> crate_node option" where
  "node_of g k = map_of (crates g) k"

definition lineage :: "supply_chain_graph \<Rightarrow> string \<Rightarrow> string list option" where
  "lineage g k = map_of (lineages g) k"

subsection \<open>Sample inputs\<close>

text \<open>A record with the given key, parents and children; the other fields are fixed.\<close>

definition crate :: "string \<Rightarrow> string list \<Rightarrow> string list \<Rightarrow> crate_data" where
  "crate k ps cs =
     \<lparr>pubkey = k, crate_id = k, authority = ''owner'', weight = 1000, timestamp = 0,
      hash = ''h'', ipfs_cid = ''cid'', operation_type = ''Created'', parent_crates = ps,
      child_crates = cs, parent_weights = [], split_distribution = None\<rparr>"

definition scenario_A :: "crate_data list" where
  "scenario_A = [crate ''A'' [] [''B''], crate ''B'' [''A''] [''C''], crate ''C'' [''B''] []]"

definition duplicate_input :: "crate_data list" where
  "duplicate_input = [crate ''X'' [] [], crate ''A'' [] [''X''], crate ''X'' [''A''] []]"

section \<open>Properties of the passes\<close>

subsection \<open>Dictionaries\<close>

lemma map_of_set_depth:
  "map_of (set_depth k d cm) x =
     (if x = k then map_option (\<lambda>n. n\<lparr>depth := d\<rparr>) (map_of cm k) else map_of cm x)"
  unfolding set_depth_def by (induction cm) auto

lemma map_of_map_entry_node:
  "map_of (AList.map_entry k f cm) x = (if x = k then map_option f (map_of cm k) else map_of cm x)"
  by (induction cm) auto

lemma keys_map_entry: "map fst (AList.map_entry k f cm) = map fst cm"
  by (induction cm) auto

lemma keys_update: "set (map fst (AList.update k v cm)) = insert k (set (map fst cm))"
  by (induction cm) auto

lemma distinct_keys_update: "distinct (map fst cm) \<Longrightarrow> distinct (map fst (AList.update k v cm))"
  by (rule distinct_update)

lemma in_keys_iff: "k \<in> fst ` set cm \<longleftrightarrow> map_of cm k \<noteq> None"
  by (simp add: map_of_eq_None_iff)

lemma in_keys_obtain:
  assumes "k \<in> fst ` set cm"
  obtains v where "map_of cm k = Some v"
  using assms in_keys_iff [of k cm] by (cases "map_of cm k") auto

subsection \<open>First pass\<close>

lemma set_set_add: "set (set_add x xs) = insert x (set xs)"
  by (auto simp: set_add_def)

lemma distinct_set_add: "distinct xs \<Longrightarrow> distinct (set_add x xs)"
  by (auto simp: set_add_def)

lemma make_node_simps:
  "is_root (make_node c) \<longleftrightarrow> parent_crates c = []"
  "depth (make_node c) = 0"
  "crate_data.truncate (make_node c) = c"
  "parent_crates (make_node c) = parent_crates c"
  "child_crates (make_node c) = child_crates c"
  "pubkey (make_node c) = pubkey c"
  by (simp_all add: make_node_def crate_data.extend_def crate_node.fields_def crate_data.truncate_def crate_data.defs)

definition data_of :: "crate_map \<Rightarrow> (string \<times> crate_data) list" where
  "data_of cm = map (\<lambda>(k, n). (k, crate_data.truncate n)) cm"

lemma truncate_depth_update [simp]: "crate_data.truncate (n\<lparr>depth := d\<rparr>) = crate_data.truncate n"
  by (simp add: crate_data.truncate_def)

lemma truncate_is_root_update [simp]: "crate_data.truncate (n\<lparr>is_root := b\<rparr>) = crate_data.truncate n"
  by (simp add: crate_data.truncate_def)

lemma truncate_fields [simp]:
  "parent_crates (crate_data.truncate n) = parent_crates n"
  "child_crates (crate_data.truncate n) = child_crates n"
  "pubkey (crate_data.truncate n) = pubkey n"
  by (simp_all add: crate_data.truncate_def)

lemma keys_data_of [simp]: "map fst (data_of cm) = map fst cm"
  by (induction cm) (auto simp: data_of_def)

lemma map_of_data_of: "map_of (data_of cm) k = map_option crate_data.truncate (map_of cm k)"
  by (induction cm) (auto simp: data_of_def)

lemma data_of_map_entry:
  "(\<And>n. crate_data.truncate (f n) = crate_data.truncate n) \<Longrightarrow>
   data_of (AList.map_entry k f cm) = data_of cm"
  by (induction cm) (auto simp: data_of_def)

lemma data_of_set_depth [simp]: "data_of (set_depth k d cm) = data_of cm"
  unfolding set_depth_def by (rule data_of_map_entry) simp

lemma visit_children_data [simp]:
  "data_of (crate_map (visit_children d cs s)) = data_of (crate_map s)"
  by (induction cs arbitrary: s) auto

lemma seed_roots_data:
  "seed_roots rs s = Inr s' \<Longrightarrow> data_of (crate_map s') = data_of (crate_map s)"
  by (induction rs arbitrary: s) (auto split: option.splits)

text \<open>An invariant of the outer loop that holds before it also holds after it, and the loop
  returns, as long as the invariant keeps the queued keys inside the dictionary.\<close>

lemma bfs_invariant:
  assumes "I s"
    and step: "\<And>s k d rest node. I s \<Longrightarrow> queue s = (k, d) # rest \<Longrightarrow> map_of (crate_map s) k = Some node
                 \<Longrightarrow> I (visit_children d (child_crates node) (s\<lparr>queue := rest\<rparr>))"
    and inmap: "\<And>s. I s \<Longrightarrow> fst ` set (queue s) \<subseteq> set (map fst (crate_map s))"
  shows "\<exists>s'. bfs s = Inr s' \<and> I s' \<and> queue s' = []"
  using assms(1)
proof (induction s rule: bfs.induct)
  case (1 s)
  show ?case
  proof (cases "queue s")
    case Nil
    then show ?thesis using "1.prems" by (simp add: bfs.simps)
  next
    case (Cons kd rest)
    obtain k d where kd: "kd = (k, d)" by (cases kd)
    have "k \<in> fst ` set (crate_map s)"
      using inmap [OF "1.prems"] Cons kd by auto
    then obtain node where node: "map_of (crate_map s) k = Some node"
      by (rule in_keys_obtain)
    have "I (visit_children d (child_crates node) (s\<lparr>queue := rest\<rparr>))"
      using step [OF "1.prems" _ node] Cons kd by simp
    from "1.IH" [OF Cons [unfolded kd] refl node this]
    show ?thesis using Cons kd node by (simp add: bfs.simps)
  qed
qed

lemma bfs_data:
  "bfs s = Inr s' \<Longrightarrow> data_of (crate_map s') = data_of (crate_map s)"
proof (induction s rule: bfs.induct)
  case (1 s)
  show ?case
  proof (cases "queue s")
    case Nil
    then show ?thesis using "1.prems" by (simp add: bfs.simps)
  next
    case (Cons kd rest)
    obtain k d where kd: "kd = (k, d)" by (cases kd)
    from "1.prems" Cons kd obtain node where node: "map_of (crate_map s) k = Some node"
      by (auto simp: bfs.simps split: option.splits)
    have "bfs (visit_children d (child_crates node) (s\<lparr>queue := rest\<rparr>)) = Inr s'"
      using "1.prems" Cons kd node by (simp add: bfs.simps)
    from "1.IH" [OF Cons [unfolded kd] refl node this]
    show ?thesis by simp
  qed
qed

subsection \<open>First pass\<close>

lemma create_nodes_append:
  "create_nodes (xs @ ys) acc = create_nodes ys (create_nodes xs acc)"
  by (induction xs acc rule: create_nodes.induct) auto

lemma create_nodes_keys:
  "set (map fst (fst (create_nodes cs (cm, rs)))) = set (map fst cm) \<union> pubkey ` set cs"
  by (induction cs arbitrary: cm rs) (auto simp: keys_update simp del: set_map)

lemma create_nodes_distinct:
  "distinct (map fst cm) \<Longrightarrow> distinct (map fst (fst (create_nodes cs (cm, rs))))"
  by (induction cs arbitrary: cm rs) (auto simp: distinct_update)

lemma create_nodes_other:
  "k \<notin> pubkey ` set cs \<Longrightarrow> map_of (fst (create_nodes cs (cm, rs))) k = map_of cm k"
  by (induction cs arbitrary: cm rs) (auto simp: update_conv')

lemma create_nodes_last:
  assumes "cs = pre @ c # post" and "pubkey c \<notin> pubkey ` set post"
  shows "map_of (fst (create_nodes cs (cm, rs))) (pubkey c) = Some (make_node c)"
proof -
  obtain cm1 rs1 where a: "create_nodes pre (cm, rs) = (cm1, rs1)"
    by (cases "create_nodes pre (cm, rs)")
  have "create_nodes cs (cm, rs) = create_nodes post
          (AList.update (pubkey c) (make_node c) cm1,
           if is_root (make_node c) then set_add (pubkey c) rs1 else rs1)"
    using assms(1) a by (simp add: create_nodes_append)
  then show ?thesis
    using create_nodes_other [OF assms(2)] by (simp add: update_conv')
qed

text \<open>What every pass keeps true of the dictionary and the root set.\<close>

definition flags_ok :: "crate_map \<Rightarrow> string list \<Rightarrow> bool" where
  "flags_ok cm rs \<longleftrightarrow>
     (\<forall>k n. map_of cm k = Some n \<longrightarrow>
        (is_root n \<longleftrightarrow> parent_crates n = []) \<and> (parent_crates n = [] \<longrightarrow> k \<in> set rs))"

lemma create_nodes_flags:
  "flags_ok cm rs \<Longrightarrow> flags_ok (fst (create_nodes cs (cm, rs))) (snd (create_nodes cs (cm, rs)))"
proof (induction cs arbitrary: cm rs)
  case Nil
  then show ?case by simp
next
  case (Cons c cs)
  have "flags_ok (AList.update (pubkey c) (make_node c) cm)
          (if is_root (make_node c) then set_add (pubkey c) rs else rs)"
    using Cons.prems
    by (auto simp: flags_ok_def update_conv' make_node_simps set_set_add split: if_splits)
  from Cons.IH [OF this] show ?case by simp
qed

lemma create_nodes_depth0:
  "(\<forall>k n. map_of cm k = Some n \<longrightarrow> depth n = 0) \<Longrightarrow>
   map_of (fst (create_nodes cs (cm, rs))) k = Some n \<Longrightarrow> depth n = 0"
proof (induction cs arbitrary: cm rs)
  case Nil
  then show ?case by simp
next
  case (Cons c cs)
  have "\<forall>k n. map_of (AList.update (pubkey c) (make_node c) cm) k = Some n \<longrightarrow> depth n = 0"
    using Cons.prems(1) by (auto simp: update_conv' make_node_simps split: if_splits)
  from Cons.IH [OF this, of "if is_root (make_node c) then set_add (pubkey c) rs else rs"] Cons.prems(2)
  show ?case by simp
qed

lemma create_nodes_roots:
  "set (snd (create_nodes cs (cm, rs))) = set rs \<union> {pubkey c |c. c \<in> set cs \<and> parent_crates c = []}"
  by (induction cs arbitrary: cm rs) (auto simp: set_set_add make_node_simps)

lemma create_nodes_roots_distinct:
  "distinct rs \<Longrightarrow> distinct (snd (create_nodes cs (cm, rs)))"
  by (induction cs arbitrary: cm rs) (auto simp: distinct_set_add)

subsection \<open>Unvisited nodes\<close>

lemma handle_unvisited_step_keys:
  "map fst (fst (handle_unvisited_step V pk acc)) = map fst (fst acc)"
  by (cases acc) (auto simp: handle_unvisited_step_def Let_def keys_set_depth keys_map_entry
      split: option.splits)

lemma handle_unvisited_step_data:
  "data_of (fst (handle_unvisited_step V pk acc)) = data_of (fst acc)"
  by (cases acc) (auto simp: handle_unvisited_step_def Let_def data_of_map_entry
      split: option.splits)

lemma handle_unvisited_step_other:
  "k \<noteq> pk \<Longrightarrow> map_of (fst (handle_unvisited_step V pk acc)) k = map_of (fst acc) k"
  by (cases acc) (auto simp: handle_unvisited_step_def Let_def map_of_set_depth map_of_map_entry_node
      split: option.splits)

lemma handle_unvisited_step_visited:
  "pk \<in> V \<Longrightarrow> handle_unvisited_step V pk acc = acc"
  by (cases acc) (auto simp: handle_unvisited_step_def split: option.splits)

lemma handle_unvisited_step_flags:
  "flags_ok (fst acc) (snd acc) \<Longrightarrow>
   flags_ok (fst (handle_unvisited_step V pk acc)) (snd (handle_unvisited_step V pk acc))"
  by (cases acc) (auto simp: handle_unvisited_step_def Let_def flags_ok_def map_of_set_depth
      map_of_map_entry_node set_set_add split: option.splits if_splits)

lemma handle_unvisited_step_roots:
  "flags_ok (fst acc) (snd acc) \<Longrightarrow> snd (handle_unvisited_step V pk acc) = snd acc"
  by (cases acc) (auto simp: handle_unvisited_step_def Let_def flags_ok_def set_add_def
      split: option.splits)

lemma handle_unvisited_step_is_root:
  "flags_ok (fst acc) (snd acc) \<Longrightarrow>
   map_option is_root (map_of (fst (handle_unvisited_step V pk acc)) k) = map_option is_root (map_of (fst acc) k)"
  by (cases acc) (auto simp: handle_unvisited_step_def Let_def flags_ok_def map_of_set_depth
      map_of_map_entry_node split: option.splits)

lemma fold_step_keys:
  "map fst (fst (fold (handle_unvisited_step V) ks acc)) = map fst (fst acc)"
  by (induction ks arbitrary: acc) (auto simp: handle_unvisited_step_keys)

lemma fold_step_data:
  "data_of (fst (fold (handle_unvisited_step V) ks acc)) = data_of (fst acc)"
  by (induction ks arbitrary: acc) (auto simp: handle_unvisited_step_data)

lemma fold_step_flags:
  "flags_ok (fst acc) (snd acc) \<Longrightarrow>
   flags_ok (fst (fold (handle_unvisited_step V) ks acc)) (snd (fold (handle_unvisited_step V) ks acc))"
proof (induction ks arbitrary: acc)
  case Nil
  then show ?case by simp
next
  case (Cons a ks)
  show ?case using Cons.IH [OF handle_unvisited_step_flags [OF Cons.prems]] by simp
qed

lemma fold_step_roots:
  "flags_ok (fst acc) (snd acc) \<Longrightarrow> snd (fold (handle_unvisited_step V) ks acc) = snd acc"
proof (induction ks arbitrary: acc)
  case Nil
  show ?case by simp
next
  case (Cons a ks)
  have "snd (fold (handle_unvisited_step V) ks (handle_unvisited_step V a acc))
        = snd (handle_unvisited_step V a acc)"
    by (rule Cons.IH) (rule handle_unvisited_step_flags [OF Cons.prems])
  then show ?case using handle_unvisited_step_roots [OF Cons.prems] by simp
qed

lemma fold_step_is_root:
  "flags_ok (fst acc) (snd acc) \<Longrightarrow>
   map_option is_root (map_of (fst (fold (handle_unvisited_step V) ks acc)) k)
     = map_option is_root (map_of (fst acc) k)"
proof (induction ks arbitrary: acc)
  case Nil
  show ?case by simp
next
  case (Cons a ks)
  have "map_option is_root (map_of (fst (fold (handle_unvisited_step V) ks (handle_unvisited_step V a acc))) k)
        = map_option is_root (map_of (fst (handle_unvisited_step V a acc)) k)"
    by (rule Cons.IH) (rule handle_unvisited_step_flags [OF Cons.prems])
  then show ?case using handle_unvisited_step_is_root [OF Cons.prems] by simp
qed

lemma fold_step_other:
  "k \<notin> set ks \<Longrightarrow> map_of (fst (fold (handle_unvisited_step V) ks acc)) k = map_of (fst acc) k"
  by (induction ks arbitrary: acc) (auto simp: handle_unvisited_step_other)

lemma fold_step_visited:
  "k \<in> V \<Longrightarrow> map_of (fst (fold (handle_unvisited_step V) ks acc)) k = map_of (fst acc) k"
proof (induction ks arbitrary: acc)
  case Nil
  show ?case by simp
next
  case (Cons a ks)
  have "map_of (fst (handle_unvisited_step V a acc)) k = map_of (fst acc) k"
    using Cons.prems
    by (cases "a = k") (simp_all add: handle_unvisited_step_visited handle_unvisited_step_other)
  then show ?case using Cons.IH [OF Cons.prems, of "handle_unvisited_step V a acc"] by simp
qed

lemma fold_step_all_visited:
  "set ks \<subseteq> V \<Longrightarrow> fold (handle_unvisited_step V) ks acc = acc"
  by (induction ks arbitrary: acc) (auto simp: handle_unvisited_step_visited)

subsection \<open>Lineage paths\<close>

lemma trace_visited: "pk \<in> V \<Longrightarrow> trace_to_roots cm pk V = []"
  by (subst trace_to_roots.simps) simp

lemma trace_absent: "map_of cm pk = None \<Longrightarrow> trace_to_roots cm pk V = []"
  by (subst trace_to_roots.simps) simp

lemma trace_root:
  "pk \<notin> V \<Longrightarrow> map_of cm pk = Some n \<Longrightarrow> is_root n \<or> parent_crates n = [] \<Longrightarrow>
   trace_to_roots cm pk V = [[pk]]"
  by (subst trace_to_roots.simps) auto

definition candidates :: "crate_map \<Rightarrow> string \<Rightarrow> string set \<Rightarrow> string list \<Rightarrow> string list list" where
  "candidates cm pk V ps =
     concat (map (\<lambda>parent_pubkey.
                map (\<lambda>parent_path. pk # parent_path)
                  (filter (\<lambda>parent_path. parent_path \<noteq> [])
                     (trace_to_roots cm parent_pubkey (insert pk V)))) ps)"

lemma trace_step:
  "pk \<notin> V \<Longrightarrow> map_of cm pk = Some n \<Longrightarrow> \<not> is_root n \<Longrightarrow> parent_crates n \<noteq> [] \<Longrightarrow>
   trace_to_roots cm pk V =
     (if candidates cm pk V (parent_crates n) = [] then [[pk]]
      else candidates cm pk V (parent_crates n))"
  by (subst trace_to_roots.simps) (simp add: candidates_def Let_def)

lemma candidates_hd: "p \<in> set (candidates cm pk V ps) \<Longrightarrow> p \<noteq> [] \<and> hd p = pk"
  by (auto simp: candidates_def)

lemma trace_hd: "p \<in> set (trace_to_roots cm pk V) \<Longrightarrow> p \<noteq> [] \<and> hd p = pk"
proof (cases "pk \<in> V \<or> map_of cm pk = None")
  case True
  then show "p \<in> set (trace_to_roots cm pk V) \<Longrightarrow> ?thesis"
    by (auto simp: trace_visited trace_absent)
next
  case False
  then obtain n where n: "pk \<notin> V" "map_of cm pk = Some n" by auto
  assume p: "p \<in> set (trace_to_roots cm pk V)"
  show ?thesis
  proof (cases "is_root n \<or> parent_crates n = []")
    case True
    then show ?thesis using p trace_root [OF n True] by simp
  next
    case False
    then show ?thesis using p trace_step [OF n] candidates_hd [of p cm pk V "parent_crates n"]
      by (auto split: if_splits)
  qed
qed

lemma min_by_len_fold_mem: "fold (\<lambda>p best. if length p < length best then p else best) ps b \<in> set (b # ps)"
  by (induction ps arbitrary: b) auto

lemma min_by_len_mem: "min_by_len p ps \<in> set (p # ps)"
  unfolding min_by_len_def by (rule min_by_len_fold_mem)

lemma lineage_of_hd: "lineage_of cm k \<noteq> [] \<and> hd (lineage_of cm k) = k"
proof (cases "trace_to_roots cm k {}")
  case Nil
  then show ?thesis by (simp add: lineage_of_def)
next
  case (Cons p ps)
  then have "lineage_of cm k \<in> set (trace_to_roots cm k {})"
    using min_by_len_mem [of p ps] by (simp add: lineage_of_def)
  then show ?thesis by (rule trace_hd)
qed

lemma update_fresh: "k \<notin> fst ` set al \<Longrightarrow> AList.update k v al = al @ [(k, v)]"
  by (induction al) auto

lemma fold_update_fresh:
  "distinct ks \<Longrightarrow> set ks \<inter> fst ` set acc = {} \<Longrightarrow>
   fold (\<lambda>k l. AList.update k (f k) l) ks acc = acc @ map (\<lambda>k. (k, f k)) ks"
proof (induction ks arbitrary: acc)
  case Nil
  show ?case by simp
next
  case (Cons k ks)
  have "AList.update k (f k) acc = acc @ [(k, f k)]"
    using Cons.prems by (intro update_fresh) auto
  moreover have "set ks \<inter> fst ` set (acc @ [(k, f k)]) = {}"
    using Cons.prems by auto
  ultimately show ?case using Cons.IH [of "acc @ [(k, f k)]"] Cons.prems by simp
qed

lemma build_lineages_eq:
  "distinct (map fst cm) \<Longrightarrow> build_lineages cm = map (\<lambda>k. (k, lineage_of cm k)) (map fst cm)"
  unfolding build_lineages_def using fold_update_fresh [of "map fst cm" "[]" "lineage_of cm"] by simp

text \<open>The dictionary with every depth reset: what the second pass never changes.\<close>

definition undepth :: "crate_map \<Rightarrow> crate_map" where
  "undepth cm = map (\<lambda>(k, n). (k, n\<lparr>depth := 0\<rparr>)) cm"

lemma undepth_set_depth [simp]: "undepth (set_depth k d cm) = undepth cm"
  unfolding set_depth_def undepth_def by (induction cm) auto

lemma map_of_undepth: "map_of (undepth cm) k = map_option (\<lambda>n. n\<lparr>depth := 0\<rparr>) (map_of cm k)"
  by (induction cm) (auto simp: undepth_def)

lemma keys_undepth [simp]: "map fst (undepth cm) = map fst cm"
  by (induction cm) (auto simp: undepth_def)

lemma data_of_undepth [simp]: "data_of (undepth cm) = data_of cm"
  by (induction cm) (auto simp: undepth_def data_of_def)

lemma flags_ok_undepth: "flags_ok (undepth cm) rs \<longleftrightarrow> flags_ok cm rs"
proof
  assume L: "flags_ok (undepth cm) rs"
  show "flags_ok cm rs"
    unfolding flags_ok_def
  proof (intro allI impI)
    fix k n assume "map_of cm k = Some n"
    then have "map_of (undepth cm) k = Some (n\<lparr>depth := 0\<rparr>)" by (simp add: map_of_undepth)
    from L [unfolded flags_ok_def, rule_format, OF this]
    show "is_root n = (parent_crates n = []) \<and> (parent_crates n = [] \<longrightarrow> k \<in> set rs)" by simp
  qed
next
  assume R: "flags_ok cm rs"
  show "flags_ok (undepth cm) rs"
    unfolding flags_ok_def
  proof (intro allI impI)
    fix k n assume "map_of (undepth cm) k = Some n"
    then obtain m where m: "map_of cm k = Some m" "n = m\<lparr>depth := 0\<rparr>"
      by (auto simp: map_of_undepth)
    from R [unfolded flags_ok_def, rule_format, OF m(1)] m(2)
    show "is_root n = (parent_crates n = []) \<and> (parent_crates n = [] \<longrightarrow> k \<in> set rs)" by simp
  qed
qed

lemma undepth_id: "(\<forall>k n. map_of cm k = Some n \<longrightarrow> depth n = 0) \<Longrightarrow> distinct (map fst cm) \<Longrightarrow> undepth cm = cm"
proof (induction cm)
  case Nil
  show ?case by (simp add: undepth_def)
next
  case (Cons a cm)
  obtain k n where a: "a = (k, n)" by (cases a)
  have "depth n = 0" using Cons.prems(1) [rule_format, of k n] a by simp
  moreover have "undepth cm = cm"
  proof (rule Cons.IH)
    show "\<forall>k n. map_of cm k = Some n \<longrightarrow> depth n = 0"
    proof (intro allI impI)
      fix k' n' assume h: "map_of cm k' = Some n'"
      then have "k' \<in> fst ` set cm" by (simp add: in_keys_iff)
      then have "k' \<noteq> k" using Cons.prems(2) a by auto
      then show "depth n' = 0" using Cons.prems(1) [rule_format, of k' n'] a h by simp
    qed
    show "distinct (map fst cm)" using Cons.prems(2) by simp
  qed
  ultimately show ?case using a by (simp add: undepth_def)
qed

lemma visit_children_undepth [simp]:
  "undepth (crate_map (visit_children d cs s)) = undepth (crate_map s)"
  by (induction cs arbitrary: s) auto

lemma seed_roots_undepth:
  "seed_roots rs s = Inr s' \<Longrightarrow> undepth (crate_map s') = undepth (crate_map s)"
  by (induction rs arbitrary: s) (auto split: option.splits)

lemma bfs_undepth:
  "bfs s = Inr s' \<Longrightarrow> undepth (crate_map s') = undepth (crate_map s)"
proof (induction s rule: bfs.induct)
  case (1 s)
  show ?case
  proof (cases "queue s")
    case Nil
    then show ?thesis using "1.prems" by (simp add: bfs.simps)
  next
    case (Cons kd rest)
    obtain k d where kd: "kd = (k, d)" by (cases kd)
    from "1.prems" Cons kd obtain node where node: "map_of (crate_map s) k = Some node"
      by (auto simp: bfs.simps split: option.splits)
    have "bfs (visit_children d (child_crates node) (s\<lparr>queue := rest\<rparr>)) = Inr s'"
      using "1.prems" Cons kd node by (simp add: bfs.simps)
    from "1.IH" [OF Cons [unfolded kd] refl node this]
    show ?thesis by simp
  qed
qed

lemma visit_children_queue_keys:
  "fst ` set (queue s) \<subseteq> fst ` set (crate_map s) \<Longrightarrow>
   fst ` set (queue (visit_children d cs s)) \<subseteq> fst ` set (crate_map (visit_children d cs s))"
proof (induction cs arbitrary: s)
  case Nil
  then show ?case by simp
next
  case (Cons c cs)
  show ?case
  proof (cases "map_of (crate_map s) c \<noteq> None \<and> c \<notin> visited s")
    case False
    then have "visit_children d (c # cs) s = visit_children d cs s" by auto
    then show ?thesis using Cons.IH [OF Cons.prems] by simp
  next
    case True
    let ?s = "\<lparr>crate_map = set_depth c (d + 1) (crate_map s),
              visited = insert c (visited s),
              queue = queue s @ [(c, d + 1)]\<rparr>"
    have k: "fst ` set (set_depth c (d + 1) (crate_map s)) = fst ` set (crate_map s)"
      using keys_set_depth [of c "d + 1" "crate_map s"] by (metis list.set_map)
    have "c \<in> fst ` set (crate_map s)" using True by (simp add: in_keys_iff)
    then have "fst ` set (queue ?s) \<subseteq> fst ` set (crate_map ?s)"
      using Cons.prems k by auto
    from Cons.IH [OF this] show ?thesis using True by simp
  qed
qed

lemma bfs_returns:
  assumes "fst ` set (queue s) \<subseteq> fst ` set (crate_map s)"
  shows "\<exists>s'. bfs s = Inr s' \<and> queue s' = []"
proof -
  have "\<exists>s'. bfs s = Inr s' \<and> fst ` set (queue s') \<subseteq> fst ` set (crate_map s') \<and> queue s' = []"
  proof (rule bfs_invariant [where I = "\<lambda>s. fst ` set (queue s) \<subseteq> fst ` set (crate_map s)"])
    show "fst ` set (queue s) \<subseteq> fst ` set (crate_map s)" by (rule assms)
  next
    fix s :: bfs_state and k d rest node
    assume "fst ` set (queue s) \<subseteq> fst ` set (crate_map s)" "queue s = (k, d) # rest"
    then have "fst ` set (queue (s\<lparr>queue := rest\<rparr>)) \<subseteq> fst ` set (crate_map (s\<lparr>queue := rest\<rparr>))"
      by auto
    then show "fst ` set (queue (visit_children d (child_crates node) (s\<lparr>queue := rest\<rparr>)))
       \<subseteq> fst ` set (crate_map (visit_children d (child_crates node) (s\<lparr>queue := rest\<rparr>)))"
      by (rule visit_children_queue_keys)
  next
    fix s :: bfs_state
    assume "fst ` set (queue s) \<subseteq> fst ` set (crate_map s)"
    then show "fst ` set (queue s) \<subseteq> set (map fst (crate_map s))" by simp
  qed
  then show ?thesis by blast
qed

subsection \<open>The passes composed\<close>

definition first_pass :: "crate_data list \<Rightarrow> crate_map \<times> string list" where
  "first_pass cs = create_nodes cs ([], [])"

lemma first_pass_facts:
  "distinct (map fst (fst (first_pass cs)))"
  "fst ` set (fst (first_pass cs)) = pubkey ` set cs"
  "flags_ok (fst (first_pass cs)) (snd (first_pass cs))"
  "set (snd (first_pass cs)) = {pubkey c |c. c \<in> set cs \<and> parent_crates c = []}"
  "undepth (fst (first_pass cs)) = fst (first_pass cs)"
  "distinct (snd (first_pass cs))"
  "\<forall>k n. map_of (fst (first_pass cs)) k = Some n \<longrightarrow> depth n = 0"
proof -
  show d: "distinct (map fst (fst (first_pass cs)))"
    unfolding first_pass_def by (rule create_nodes_distinct) simp
  show "fst ` set (fst (first_pass cs)) = pubkey ` set cs"
    unfolding first_pass_def using create_nodes_keys [of cs "[]" "[]"] by simp
  show "flags_ok (fst (first_pass cs)) (snd (first_pass cs))"
    unfolding first_pass_def by (rule create_nodes_flags) (simp add: flags_ok_def)
  show "set (snd (first_pass cs)) = {pubkey c |c. c \<in> set cs \<and> parent_crates c = []}"
    unfolding first_pass_def using create_nodes_roots [of cs "[]" "[]"] by simp
  show z: "\<forall>k n. map_of (fst (first_pass cs)) k = Some n \<longrightarrow> depth n = 0"
    unfolding first_pass_def using create_nodes_depth0 [of "[]" cs "[]"] by auto
  then show "undepth (fst (first_pass cs)) = fst (first_pass cs)"
    using d by (rule undepth_id)
  show "distinct (snd (first_pass cs))"
    unfolding first_pass_def by (rule create_nodes_roots_distinct) simp
qed

lemma first_pass_roots_in_map: "set (snd (first_pass cs)) \<subseteq> fst ` set (fst (first_pass cs))"
  unfolding first_pass_facts(2) first_pass_facts(4) by auto

lemma set_depth_id: "map_of cm k = Some n \<Longrightarrow> depth n = d \<Longrightarrow> set_depth k d cm = cm"
  unfolding set_depth_def by (induction cm) (auto split: if_splits)

lemma seed_roots_depth0:
  "\<forall>k n. map_of (crate_map s) k = Some n \<longrightarrow> depth n = 0 \<Longrightarrow>
   set rs \<subseteq> fst ` set (crate_map s) \<Longrightarrow>
   seed_roots rs s = Inr \<lparr>crate_map = crate_map s, visited = visited s \<union> set rs,
                          queue = queue s @ map (\<lambda>r. (r, 0)) rs\<rparr>"
proof (induction rs arbitrary: s)
  case Nil
  show ?case by simp
next
  case (Cons r rs)
  from Cons.prems(2) have "r \<in> fst ` set (crate_map s)" by simp
  then obtain n where n: "map_of (crate_map s) r = Some n"
    by (rule in_keys_obtain)
  then have sd: "set_depth r 0 (crate_map s) = crate_map s"
    using Cons.prems(1) by (intro set_depth_id [of _ _ n]) auto
  let ?s = "\<lparr>crate_map = crate_map s, visited = insert r (visited s),
             queue = queue s @ [(r, 0)]\<rparr>"
  have "seed_roots rs ?s = Inr \<lparr>crate_map = crate_map ?s, visited = visited ?s \<union> set rs,
                          queue = queue ?s @ map (\<lambda>r. (r, 0)) rs\<rparr>"
    using Cons.prems by (intro Cons.IH) auto
  then show ?case using n sd by simp
qed

definition seeded :: "crate_data list \<Rightarrow> bfs_state" where
  "seeded cs =
     \<lparr>crate_map = fst (first_pass cs), visited = set (snd (first_pass cs)),
      queue = map (\<lambda>r. (r, 0)) (snd (first_pass cs))\<rparr>"

lemma seed_roots_first_pass:
  "seed_roots (snd (first_pass cs)) \<lparr>crate_map = fst (first_pass cs), visited = {}, queue = []\<rparr>
   = Inr (seeded cs)"
  using seed_roots_depth0 [of "\<lparr>crate_map = fst (first_pass cs), visited = {}, queue = []\<rparr>"
      "snd (first_pass cs)"] first_pass_facts(7) [of cs] first_pass_roots_in_map [of cs]
  by (simp add: seeded_def)

lemma seeded_queue_keys: "fst ` set (queue (seeded cs)) \<subseteq> fst ` set (crate_map (seeded cs))"
  using first_pass_roots_in_map [of cs] by (auto simp: seeded_def)

text \<open>The state in which the breadth-first pass ends.\<close>

definition after_bfs :: "crate_data list \<Rightarrow> bfs_state" where
  "after_bfs cs = (case bfs (seeded cs) of Inr s \<Rightarrow> s | Inl e \<Rightarrow> seeded cs)"

lemma bfs_seeded: "bfs (seeded cs) = Inr (after_bfs cs)" "queue (after_bfs cs) = []"
  using bfs_returns [OF seeded_queue_keys, of cs] by (auto simp: after_bfs_def)

definition final_pass :: "crate_data list \<Rightarrow> crate_map \<times> string list" where
  "final_pass cs =
     handle_unvisited (visited (after_bfs cs)) (crate_map (after_bfs cs), snd (first_pass cs))"

lemma build_eq:
  "build_supply_chain_graph cs =
     Inr \<lparr>total_crates = int (length (fst (final_pass cs))),
          root_crates = snd (final_pass cs),
          crates = fst (final_pass cs),
          lineages = build_lineages (fst (final_pass cs))\<rparr>"
proof -
  obtain cm0 roots0 where fp: "create_nodes cs ([], []) = (cm0, roots0)"
    by (cases "create_nodes cs ([], [])")
  then have fp': "fst (first_pass cs) = cm0" "snd (first_pass cs) = roots0"
    by (simp_all add: first_pass_def)
  obtain cm roots where hp: "final_pass cs = (cm, roots)"
    by (cases "final_pass cs")
  show ?thesis
    unfolding build_supply_chain_graph_def fp
    using seed_roots_first_pass [of cs] bfs_seeded(1) [of cs] hp
    by (simp add: fp' final_pass_def)
qed

lemma after_bfs_undepth: "undepth (crate_map (after_bfs cs)) = fst (first_pass cs)"
  using bfs_undepth [OF bfs_seeded(1), of cs] first_pass_facts(5) [of cs]
  by (simp add: seeded_def)

lemma final_pass_facts:
  "map fst (fst (final_pass cs)) = map fst (fst (first_pass cs))"
  "data_of (fst (final_pass cs)) = data_of (fst (first_pass cs))"
  "flags_ok (fst (final_pass cs)) (snd (final_pass cs))"
  "snd (final_pass cs) = snd (first_pass cs)"
  "distinct (map fst (fst (final_pass cs)))"
proof -
  let ?acc = "(crate_map (after_bfs cs), snd (first_pass cs))"
  have k: "map fst (crate_map (after_bfs cs)) = map fst (fst (first_pass cs))"
    using after_bfs_undepth [of cs] keys_undepth [of "crate_map (after_bfs cs)"] by simp
  show 1: "map fst (fst (final_pass cs)) = map fst (fst (first_pass cs))"
    unfolding final_pass_def handle_unvisited_def using k by (simp add: fold_step_keys)
  have "data_of (crate_map (after_bfs cs)) = data_of (fst (first_pass cs))"
    using after_bfs_undepth [of cs] data_of_undepth [of "crate_map (after_bfs cs)"] by simp
  then show "data_of (fst (final_pass cs)) = data_of (fst (first_pass cs))"
    unfolding final_pass_def handle_unvisited_def by (simp add: fold_step_data)
  have f: "flags_ok (fst ?acc) (snd ?acc)"
    using first_pass_facts(3) [of cs] after_bfs_undepth [of cs]
      flags_ok_undepth [of "crate_map (after_bfs cs)" "snd (first_pass cs)"] by simp
  show "flags_ok (fst (final_pass cs)) (snd (final_pass cs))"
    unfolding final_pass_def handle_unvisited_def by (rule fold_step_flags [OF f])
  show "snd (final_pass cs) = snd (first_pass cs)"
    unfolding final_pass_def handle_unvisited_def using fold_step_roots [OF f] by simp
  show "distinct (map fst (fst (final_pass cs)))"
    using 1 first_pass_facts(1) [of cs] by simp
qed

lemma build_total: "\<exists>g. build_supply_chain_graph cs = Inr g"
  unfolding build_eq by blast

lemma build_InrD:
  assumes "build_supply_chain_graph cs = Inr g"
  shows "crates g = fst (final_pass cs)" "root_crates g = snd (final_pass cs)"
    "total_crates g = int (length (fst (final_pass cs)))"
    "lineages g = build_lineages (fst (final_pass cs))"
  using assms unfolding build_eq by auto

lemma sum_caseD: "(case r of Inl e \<Rightarrow> False | Inr g \<Rightarrow> P g) \<Longrightarrow> \<exists>g. r = Inr g \<and> P g"
  by (cases r) auto

lemma scenario_A_B:
  "case build_supply_chain_graph scenario_A of Inl e \<Rightarrow> False
   | Inr g \<Rightarrow> (case node_of g ''B'' of None \<Rightarrow> False
       | Some n \<Rightarrow> \<forall>p \<in> set (parent_crates n). p \<in> fst ` set (crates g))"
  by code_simp

section \<open>The claims\<close>

lemma final_pass_last:
  assumes "i < length cs" and "\<forall>j<length cs. i < j \<longrightarrow> pubkey (cs ! j) \<noteq> pubkey (cs ! i)"
  shows "map_option crate_data.truncate (map_of (fst (final_pass cs)) (pubkey (cs ! i))) = Some (cs ! i)"
proof -
  have split: "cs = take i cs @ cs ! i # drop (Suc i) cs"
    using assms(1) by (rule id_take_nth_drop)
  have "pubkey (cs ! i) \<notin> pubkey ` set (drop (Suc i) cs)"
  proof
    assume "pubkey (cs ! i) \<in> pubkey ` set (drop (Suc i) cs)"
    then obtain c where c: "c \<in> set (drop (Suc i) cs)" "pubkey c = pubkey (cs ! i)" by auto
    then obtain m where m: "m < length (drop (Suc i) cs)" "drop (Suc i) cs ! m = c"
      by (auto simp: in_set_conv_nth)
    then have "Suc i + m < length cs" "cs ! (Suc i + m) = c" by auto
    then show False using assms(2) c(2) by auto
  qed
  from create_nodes_last [OF split this, of "[]" "[]"]
  have "map_of (fst (first_pass cs)) (pubkey (cs ! i)) = Some (make_node (cs ! i))"
    by (simp add: first_pass_def)
  then have "map_of (data_of (fst (first_pass cs))) (pubkey (cs ! i)) = Some (cs ! i)"
    by (simp add: map_of_data_of make_node_simps)
  then show ?thesis
    using final_pass_facts(2) [of cs] map_of_data_of [of "fst (final_pass cs)"] by simp
qed

text \<open>
  Claim C9. When several records share a key, the graph holds one node for that key, built from
  the last such record of the input, and \<^verbatim>\<open>total_crates\<close> is the number of distinct keys of the
  input.
\<close>

theorem duplicate_key_last_wins:
  assumes "build_supply_chain_graph crate_list = Inr g"
  shows "distinct (map fst (crates g))
       \<and> fst ` set (crates g) = pubkey ` set crate_list
       \<and> total_crates g = int (card (pubkey ` set crate_list))
       \<and> (\<forall>i<length crate_list.
            (\<forall>j<length crate_list. i < j \<longrightarrow> pubkey (crate_list ! j) \<noteq> pubkey (crate_list ! i)) \<longrightarrow>
            map_option crate_data.truncate (node_of g (pubkey (crate_list ! i))) = Some (crate_list ! i))"
proof -
  note g = build_InrD [OF assms]
  have d: "distinct (map fst (crates g))"
    using g(1) final_pass_facts(5) [of crate_list] by simp
  have k: "fst ` set (crates g) = pubkey ` set crate_list"
  proof -
    have "set (map fst (crates g)) = set (map fst (fst (first_pass crate_list)))"
      using g(1) final_pass_facts(1) [of crate_list] by simp
    then show ?thesis using first_pass_facts(2) [of crate_list] by simp
  qed
  have "card (pubkey ` set crate_list) = card (set (map fst (crates g)))"
    using k by simp
  also have "\<dots> = length (map fst (crates g))"
    using d by (rule distinct_card)
  finally have t: "total_crates g = int (card (pubkey ` set crate_list))"
    using g(1,3) by simp
  have l: "\<forall>i<length crate_list.
            (\<forall>j<length crate_list. i < j \<longrightarrow> pubkey (crate_list ! j) \<noteq> pubkey (crate_list ! i)) \<longrightarrow>
            map_option crate_data.truncate (node_of g (pubkey (crate_list ! i))) = Some (crate_list ! i)"
    using final_pass_last [of _ crate_list] g(1) by (simp add: node_of_def)
  show ?thesis using d k t l by blast
qed

theorem duplicate_key_last_wins_witness:
  "\<exists>g. build_supply_chain_graph duplicate_input = Inr g
     \<and> (2::nat) < length duplicate_input
     \<and> (\<forall>j<length duplicate_input. 2 < j \<longrightarrow> pubkey (duplicate_input ! j) \<noteq> pubkey (duplicate_input ! 2))
     \<and> total_crates g = 2
     \<and> map_option crate_data.truncate (node_of g ''X'') = Some (crate ''X'' [''A''] [])"
proof -
  obtain g where g: "build_supply_chain_graph duplicate_input = Inr g"
    using build_total by blast
  have c: "card (pubkey ` set duplicate_input) = 2"
    by code_simp
  have h: "\<forall>j<length duplicate_input. 2 < j \<longrightarrow> pubkey (duplicate_input ! j) \<noteq> pubkey (duplicate_input ! 2)"
    by (simp add: duplicate_input_def)
  have l: "(2::nat) < length duplicate_input" by (simp add: duplicate_input_def)
  from duplicate_key_last_wins [OF g] c h l
  have "total_crates g = 2"
    "map_option crate_data.truncate (node_of g (pubkey (duplicate_input ! 2))) = Some (duplicate_input ! 2)"
    by auto
  then show ?thesis using g h l by (auto simp: duplicate_input_def crate_def)
qed

lemma map_of_tabulate: "map_of (map (\<lambda>k. (k, f k)) ks) k = (if k \<in> set ks then Some (f k) else None)"
  by (induction ks) auto

lemma map_of_build_lineages:
  "distinct (map fst cm) \<Longrightarrow>
   map_of (build_lineages cm) k = (if k \<in> fst ` set cm then Some (lineage_of cm k) else None)"
  using map_of_tabulate [of "lineage_of cm" "map fst cm" k]
  by (simp only: build_lineages_eq list.set_map)

text \<open>
  Claim C10. The lineage map has exactly one entry for each key of the node map, and every
  stored lineage is a non-empty list whose first element is the key itself.
\<close>

theorem lineage_per_key_starts_at_key:
  assumes "build_supply_chain_graph crate_list = Inr g"
  shows "map fst (lineages g) = map fst (crates g)
       \<and> distinct (map fst (lineages g))
       \<and> (\<forall>k \<in> fst ` set (crates g). \<exists>p. lineage g k = Some p \<and> p \<noteq> [] \<and> hd p = k)"
proof -
  note g = build_InrD [OF assms]
  have d: "distinct (map fst (crates g))"
    using g(1) final_pass_facts(5) [of crate_list] by simp
  have le: "lineages g = map (\<lambda>k. (k, lineage_of (crates g) k)) (map fst (crates g))"
    using g(1,4) build_lineages_eq [OF d] by simp
  have 1: "map fst (lineages g) = map fst (crates g)"
    unfolding le by (simp add: comp_def)
  have "\<exists>p. lineage g k = Some p \<and> p \<noteq> [] \<and> hd p = k" if "k \<in> fst ` set (crates g)" for k
  proof -
    have "map_of (lineages g) k = Some (lineage_of (crates g) k)"
      using that g(1,4) map_of_build_lineages [OF d, of k] by simp
    then show ?thesis using lineage_of_hd [of "crates g" k] by (simp add: lineage_def)
  qed
  then show ?thesis using 1 d by simp
qed

theorem lineage_per_key_starts_at_key_witness:
  "\<exists>g. build_supply_chain_graph scenario_A = Inr g \<and> ''C'' \<in> fst ` set (crates g)
      \<and> (\<exists>p. lineage g ''C'' = Some p \<and> p \<noteq> [] \<and> hd p = ''C'')"
proof -
  have "case build_supply_chain_graph scenario_A of Inl e \<Rightarrow> False
   | Inr g \<Rightarrow> ''C'' \<in> fst ` set (crates g)"
    by code_simp
  from sum_caseD [OF this] obtain g where g: "build_supply_chain_graph scenario_A = Inr g"
    "''C'' \<in> fst ` set (crates g)" by blast
  from lineage_per_key_starts_at_key [OF g(1)] g show ?thesis by blast
qed

text \<open>
  Claim C8. For every key of the graph whose listed parents are all present, the node is flagged
  as a root exactly when its list of parents is empty.
\<close>

theorem root_iff_no_parents:
  assumes "build_supply_chain_graph crate_list = Inr g"
    and "node_of g k = Some n"
    and "\<forall>p \<in> set (parent_crates n). p \<in> fst ` set (crates g)"
  shows "is_root n \<longleftrightarrow> parent_crates n = []"
  using final_pass_facts(3) [of crate_list] build_InrD(1) [OF assms(1)] assms(2)
  by (simp add: flags_ok_def node_of_def)

theorem root_iff_no_parents_witness:
  "\<exists>g n. build_supply_chain_graph scenario_A = Inr g \<and> node_of g ''B'' = Some n
     \<and> (\<forall>p \<in> set (parent_crates n). p \<in> fst ` set (crates g))
     \<and> (is_root n \<longleftrightarrow> parent_crates n = [])"
proof -
  from sum_caseD [OF scenario_A_B] obtain g where g: "build_supply_chain_graph scenario_A = Inr g"
    and "case node_of g ''B'' of None \<Rightarrow> False
       | Some n \<Rightarrow> \<forall>p \<in> set (parent_crates n). p \<in> fst ` set (crates g)"
    by blast
  then obtain n where n: "node_of g ''B'' = Some n"
    "\<forall>p \<in> set (parent_crates n). p \<in> fst ` set (crates g)"
    by (cases "node_of g ''B''") auto
  from root_iff_no_parents [OF g n] show ?thesis using g n by blast
qed

subsection \<open>Parent links of a list of records\<close>

text \<open>The records a graph holds, the pairs (key, listed parent) of a list of records, and
  whether every listed parent is the key of some record.\<close>

definition graph_records :: "supply_chain_graph \<Rightarrow> crate_data list" where
  "graph_records g = map (\<lambda>(k, n). crate_data.truncate n) (crates g)"

definition parent_edges :: "crate_data list \<Rightarrow> (string \<times> string) set" where
  "parent_edges cs = set (concat (map (\<lambda>c. map (\<lambda>p. (pubkey c, p)) (parent_crates c)) cs))"

definition parents_present :: "crate_data list \<Rightarrow> bool" where
  "parents_present cs \<longleftrightarrow> (\<forall>c \<in> set cs. \<forall>p \<in> set (parent_crates c). p \<in> pubkey ` set cs)"

text \<open>Readers of the outcome of a build.\<close>

definition result_lineage :: "error + supply_chain_graph \<Rightarrow> string \<Rightarrow> string list option" where
  "result_lineage r k = (case r of Inl e \<Rightarrow> None | Inr g \<Rightarrow> lineage g k)"

definition result_depth :: "error + supply_chain_graph \<Rightarrow> string \<Rightarrow> int option" where
  "result_depth r k = (case r of Inl e \<Rightarrow> None | Inr g \<Rightarrow> map_option depth (node_of g k))"

definition result_is_root :: "error + supply_chain_graph \<Rightarrow> string \<Rightarrow> bool option" where
  "result_is_root r k = (case r of Inl e \<Rightarrow> None | Inr g \<Rightarrow> map_option is_root (node_of g k))"

definition pedges :: "crate_map \<Rightarrow> (string \<times> string) set" where
  "pedges cm = {(k, p). \<exists>n. map_of cm k = Some n \<and> p \<in> set (parent_crates n)}"

lemma create_nodes_pubkey:
  "(\<forall>k n. map_of cm k = Some n \<longrightarrow> pubkey n = k) \<Longrightarrow>
   map_of (fst (create_nodes cs (cm, rs))) k = Some n \<Longrightarrow> pubkey n = k"
proof (induction cs arbitrary: cm rs)
  case Nil
  then show ?case by simp
next
  case (Cons c cs)
  have "\<forall>k n. map_of (AList.update (pubkey c) (make_node c) cm) k = Some n \<longrightarrow> pubkey n = k"
    using Cons.prems(1) by (auto simp: update_conv' make_node_simps split: if_splits)
  from Cons.IH [OF this, of "if is_root (make_node c) then set_add (pubkey c) rs else rs"] Cons.prems(2)
  show ?case by simp
qed

lemma data_of_lookup:
  "data_of a = data_of b \<Longrightarrow> map_of a k = Some n \<Longrightarrow>
   \<exists>m. map_of b k = Some m \<and> crate_data.truncate m = crate_data.truncate n"
  using map_of_data_of [of a k] map_of_data_of [of b k] by auto

lemma final_pass_pubkey:
  assumes "map_of (fst (final_pass cs)) k = Some n"
  shows "pubkey n = k"
proof -
  from data_of_lookup [OF final_pass_facts(2) assms] obtain m where
    m: "map_of (fst (first_pass cs)) k = Some m" "crate_data.truncate m = crate_data.truncate n"
    by blast
  have "pubkey m = k"
    using create_nodes_pubkey [of "[]" cs "[]" k m] m(1) by (simp add: first_pass_def)
  moreover have "pubkey m = pubkey n"
    using m(2) truncate_fields(3) [of m] truncate_fields(3) [of n] by simp
  ultimately show ?thesis by simp
qed

lemma parent_edges_records:
  assumes "distinct (map fst cm)" and "\<forall>k n. map_of cm k = Some n \<longrightarrow> pubkey n = k"
  shows "parent_edges (map (\<lambda>(k, n). crate_data.truncate n) cm) = pedges cm"
proof -
  have "(k, p) \<in> parent_edges (map (\<lambda>(k, n). crate_data.truncate n) cm) \<longleftrightarrow> (k, p) \<in> pedges cm" for k p
  proof
    assume "(k, p) \<in> parent_edges (map (\<lambda>(k, n). crate_data.truncate n) cm)"
    then obtain k' n where kn: "(k', n) \<in> set cm" "pubkey n = k" "p \<in> set (parent_crates n)"
      by (auto simp: parent_edges_def)
    then have "map_of cm k' = Some n" using assms(1) by simp
    then show "(k, p) \<in> pedges cm" using assms(2) kn by (auto simp: pedges_def)
  next
    assume "(k, p) \<in> pedges cm"
    then obtain n where n: "map_of cm k = Some n" "p \<in> set (parent_crates n)"
      by (auto simp: pedges_def)
    then have "(k, n) \<in> set cm" by (simp add: map_of_SomeD)
    moreover have "pubkey n = k" using assms(2) n(1) by simp
    ultimately show "(k, p) \<in> parent_edges (map (\<lambda>(k, n). crate_data.truncate n) cm)"
      using n(2) by (force simp: parent_edges_def)
  qed
  then show ?thesis by auto
qed

lemma keys_records:
  assumes "\<forall>k n. map_of cm k = Some n \<longrightarrow> pubkey n = k" and "distinct (map fst cm)"
  shows "pubkey ` set (map (\<lambda>(k, n). crate_data.truncate n) cm) = fst ` set cm"
proof -
  have "pubkey (crate_data.truncate n) = k" if "(k, n) \<in> set cm" for k n
    using that assms by simp
  then show ?thesis by (force simp: image_iff)
qed

lemma parents_present_records:
  assumes "\<forall>k n. map_of cm k = Some n \<longrightarrow> pubkey n = k" and "distinct (map fst cm)"
    and "parents_present (map (\<lambda>(k, n). crate_data.truncate n) cm)"
    and "map_of cm k = Some n" and "p \<in> set (parent_crates n)"
  shows "map_of cm p \<noteq> None"
proof -
  have "(k, n) \<in> set cm" using assms(4) by (simp add: map_of_SomeD)
  then have t: "crate_data.truncate n \<in> set (map (\<lambda>(k, n). crate_data.truncate n) cm)" by force
  have "p \<in> set (parent_crates (crate_data.truncate n))" using assms(5) by simp
  then have "p \<in> pubkey ` set (map (\<lambda>(k, n). crate_data.truncate n) cm)"
    using assms(3) t unfolding parents_present_def by blast
  then have "p \<in> fst ` set cm" using keys_records [OF assms(1,2)] by simp
  then show ?thesis by (simp add: in_keys_iff)
qed

lemma candidates_Nil_iff:
  "candidates cm pk V ps = [] \<longleftrightarrow> (\<forall>q \<in> set ps. filter (\<lambda>p. p \<noteq> []) (trace_to_roots cm q (insert pk V)) = [])"
  by (auto simp: candidates_def)

lemma candidates_mem:
  "p \<in> set (candidates cm pk V ps) \<longleftrightarrow>
   (\<exists>q \<in> set ps. \<exists>p' \<in> set (trace_to_roots cm q (insert pk V)). p' \<noteq> [] \<and> p = pk # p')"
  by (auto simp: candidates_def)

lemma final_pass_edges:
  "parent_edges (map (\<lambda>(k, n). crate_data.truncate n) (fst (final_pass cs))) = pedges (fst (final_pass cs))"
  by (rule parent_edges_records) (auto simp: final_pass_facts(5) final_pass_pubkey)

lemma lineage_of_mem:
  "trace_to_roots cm k {} \<noteq> [] \<Longrightarrow> lineage_of cm k \<in> set (trace_to_roots cm k {})"
  using min_by_len_mem by (cases "trace_to_roots cm k {}") (auto simp: lineage_of_def)

text \<open>Whether the walk of \<^const>\<open>trace_to_roots\<close> from \<open>pk\<close> takes, in this call or in a nested
  one, the branch \<^verbatim>\<open>if not all_paths: return [[pubkey]]\<close> (lines 733-735).\<close>

function triggers_fallback :: "crate_map \<Rightarrow> string \<Rightarrow> string set \<Rightarrow> bool" where
  "triggers_fallback cm pk vpath =
     (if pk \<in> vpath then False
      else
        (case map_of cm pk of
           None \<Rightarrow> False
         | Some node \<Rightarrow>
             if is_root node then False
             else if parent_crates node = [] then False
             else
               list_ex (\<lambda>parent_pubkey. triggers_fallback cm parent_pubkey (insert pk vpath))
                 (parent_crates node)
               \<or> concat (map (\<lambda>parent_pubkey.
                             map (\<lambda>parent_path. pk # parent_path)
                               (filter (\<lambda>parent_path. parent_path \<noteq> [])
                                  (trace_to_roots cm parent_pubkey (insert pk vpath))))
                           (parent_crates node)) = []))"
  by pat_completeness auto
termination
proof (relation "measure (\<lambda>(cm, k, V). card (set (map fst cm) - V))")
  show "wf (measure (\<lambda>(cm, k, V). card (set (map fst cm) - V)))"
    by simp
next
  fix cm :: crate_map and pk :: string and vpath :: "string set"
    and node :: crate_node and parent_pubkey :: string
  assume nv: "pk \<notin> vpath" and look: "map_of cm pk = Some node"
  let ?K = "set (map fst cm)"
  have "pk \<in> ?K"
    using look by (metis map_of_eq_None_iff option.distinct(1) set_map)
  then have "pk \<in> ?K - vpath" using nv by simp
  moreover have "finite (?K - vpath)" by simp
  moreover have "?K - insert pk vpath = (?K - vpath) - {pk}" by blast
  ultimately have "card (?K - insert pk vpath) < card (?K - vpath)"
    using card.remove [of "?K - vpath" pk] by simp
  then show "((cm, parent_pubkey, insert pk vpath), cm, pk, vpath)
             \<in> measure (\<lambda>(cm, k, V). card (set (map fst cm) - V))"
    by simp
qed

declare triggers_fallback.simps [simp del]

lemma triggers_fallback_step:
  "pk \<notin> V \<Longrightarrow> map_of cm pk = Some n \<Longrightarrow> \<not> is_root n \<Longrightarrow> parent_crates n \<noteq> [] \<Longrightarrow>
   triggers_fallback cm pk V \<longleftrightarrow>
     (\<exists>q \<in> set (parent_crates n). triggers_fallback cm q (insert pk V))
     \<or> candidates cm pk V (parent_crates n) = []"
  by (subst triggers_fallback.simps) (simp add: candidates_def list_ex_iff)

lemma no_fallback_paths:
  "flags_ok cm rs \<Longrightarrow> \<not> triggers_fallback cm pk V \<Longrightarrow>
   \<forall>p \<in> set (trace_to_roots cm pk V).
      last p \<in> set rs \<and> successively (\<lambda>a b. (a, b) \<in> pedges cm) p"
proof (induction cm pk V rule: trace_to_roots.induct)
  case (1 cm pk V)
  note fl = "1.prems"(1) and nt = "1.prems"(2)
  show ?case
  proof (cases "pk \<in> V \<or> map_of cm pk = None")
    case True
    then show ?thesis by (auto simp: trace_visited trace_absent)
  next
    case False
    then obtain n where nv: "pk \<notin> V" and n: "map_of cm pk = Some n" by auto
    show ?thesis
    proof (cases "is_root n \<or> parent_crates n = []")
      case True
      then have "pk \<in> set rs" using fl n by (auto simp: flags_ok_def)
      then show ?thesis using trace_root [OF nv n True] by simp
    next
      case False
      then have nr: "\<not> is_root n" "parent_crates n \<noteq> []" by auto
      from nt triggers_fallback_step [OF nv n nr]
      have ne: "candidates cm pk V (parent_crates n) \<noteq> []"
        and sub: "\<forall>q \<in> set (parent_crates n). \<not> triggers_fallback cm q (insert pk V)"
        by auto
      have tr: "trace_to_roots cm pk V = candidates cm pk V (parent_crates n)"
        using trace_step [OF nv n nr] ne by simp
      have "last p \<in> set rs \<and> successively (\<lambda>a b. (a, b) \<in> pedges cm) p"
        if "p \<in> set (candidates cm pk V (parent_crates n))" for p
      proof -
        from that obtain q p' where q: "q \<in> set (parent_crates n)"
          and p': "p' \<in> set (trace_to_roots cm q (insert pk V))" "p' \<noteq> []" "p = pk # p'"
          by (auto simp: candidates_mem)
        have ih: "last p' \<in> set rs \<and> successively (\<lambda>a b. (a, b) \<in> pedges cm) p'"
          using "1.IH" [OF nv n nr q fl] sub q p'(1) by blast
        have h: "hd p' = q" using trace_hd [OF p'(1)] by simp
        have "(pk, q) \<in> pedges cm" using n q by (auto simp: pedges_def)
        then show ?thesis using ih p' h by (auto simp: successively_Cons)
      qed
      then show ?thesis using tr by simp
    qed
  qed
qed

lemma no_fallback_nonempty:
  assumes "map_of cm k \<noteq> None" and "\<not> triggers_fallback cm k {}"
  shows "trace_to_roots cm k {} \<noteq> []"
proof -
  from assms(1) obtain n where n: "map_of cm k = Some n" by auto
  show ?thesis
  proof (cases "is_root n \<or> parent_crates n = []")
    case True
    then show ?thesis using trace_root [of k "{}" cm n] n by simp
  next
    case False
    then have nr: "\<not> is_root n" "parent_crates n \<noteq> []" by auto
    have "candidates cm k {} (parent_crates n) \<noteq> []"
      using assms(2) triggers_fallback_step [of k "{}" cm n] n nr by simp
    then show ?thesis using trace_step [of k "{}" cm n] n nr by simp
  qed
qed

text \<open>
  Claim C1, as amended. The stored lineage runs from the key towards an ancestor: for every
  built graph and every key that does not trigger the all-cycle fallback, the lineage of the
  key begins with the key itself, each further element is a listed parent of the one before
  it, and the last element is a member of the root set. For the chain A, B, C the lineage of C
  is [C, B, A]. The caller \<^verbatim>\<open>get_crate_history\<close> reverses the stored list to obtain the order
  from root to record.
\<close>

theorem lineage_from_key_to_root:
  assumes "build_supply_chain_graph crate_list = Inr g"
    and "k \<in> fst ` set (crates g)"
    and "\<not> triggers_fallback (crates g) k {}"
  shows "\<exists>p. lineage g k = Some p \<and> p \<noteq> [] \<and> hd p = k \<and> last p \<in> set (root_crates g)
           \<and> successively (\<lambda>a b. (a, b) \<in> parent_edges (graph_records g)) p"
proof -
  note g = build_InrD [OF assms(1)]
  let ?cm = "fst (final_pass crate_list)"
  have d: "distinct (map fst ?cm)" by (rule final_pass_facts(5))
  have e: "parent_edges (graph_records g) = pedges ?cm"
    using final_pass_edges [of crate_list] g(1) by (simp add: graph_records_def)
  have k: "map_of ?cm k \<noteq> None" using assms(2) g(1) by (simp add: in_keys_iff)
  have fl: "flags_ok ?cm (root_crates g)" using final_pass_facts(3) [of crate_list] g(2) by simp
  have nt: "\<not> triggers_fallback ?cm k {}" using assms(3) g(1) by simp
  have t: "trace_to_roots ?cm k {} \<noteq> []" using no_fallback_nonempty [OF k nt] .
  have m: "lineage_of ?cm k \<in> set (trace_to_roots ?cm k {})"
    using t by (rule lineage_of_mem)
  have l: "lineage g k = Some (lineage_of ?cm k)"
    using map_of_build_lineages [OF d, of k] assms(2) g(1,4) by (simp add: lineage_def)
  show ?thesis
    using l m no_fallback_paths [OF fl nt] lineage_of_hd [of ?cm k] e by auto
qed

lemma scenario_A_C:
  "case build_supply_chain_graph scenario_A of Inl e \<Rightarrow> False
   | Inr g \<Rightarrow> ''C'' \<in> fst ` set (crates g) \<and> \<not> triggers_fallback (crates g) ''C'' {}
        \<and> lineage g ''C'' = Some [''C'', ''B'', ''A'']
        \<and> root_crates g = [''A'']"
  by code_simp

theorem lineage_from_key_to_root_witness:
  "\<exists>g. build_supply_chain_graph scenario_A = Inr g
      \<and> ''C'' \<in> fst ` set (crates g)
      \<and> \<not> triggers_fallback (crates g) ''C'' {}
      \<and> lineage g ''C'' = Some [''C'', ''B'', ''A'']
      \<and> (\<exists>p. lineage g ''C'' = Some p \<and> p \<noteq> [] \<and> hd p = ''C'' \<and> last p \<in> set (root_crates g)
           \<and> successively (\<lambda>a b. (a, b) \<in> parent_edges (graph_records g)) p)"
proof -
  from sum_caseD [OF scenario_A_C] obtain g where g: "build_supply_chain_graph scenario_A = Inr g"
    "''C'' \<in> fst ` set (crates g)" "\<not> triggers_fallback (crates g) ''C'' {}"
    "lineage g ''C'' = Some [''C'', ''B'', ''A'']"
    by blast
  from lineage_from_key_to_root [OF g(1-3)] g show ?thesis by blast
qed

text \<open>Claim C1 as stated fails on the chain A, B, C: the lineage of C is not [A, B, C].\<close>

theorem lineage_root_first_counterexample:
  "result_lineage (build_supply_chain_graph scenario_A) ''C'' = Some [''C'', ''B'', ''A'']
   \<and> result_lineage (build_supply_chain_graph scenario_A) ''C'' \<noteq> Some [''A'', ''B'', ''C'']"
  by code_simp

definition orphan_input :: "crate_data list" where
  "orphan_input = [crate ''E'' [''missing-key''] []]"

lemma visit_children_untouched:
  "k \<notin> set cs \<Longrightarrow>
   map_of (crate_map (visit_children d cs s)) k = map_of (crate_map s) k
   \<and> (k \<in> visited (visit_children d cs s) \<longleftrightarrow> k \<in> visited s)"
proof (induction cs arbitrary: s)
  case Nil
  show ?case by simp
next
  case (Cons c cs)
  then have ck: "c \<noteq> k" and kcs: "k \<notin> set cs" by auto
  show ?case
  proof (cases "map_of (crate_map s) c \<noteq> None \<and> c \<notin> visited s")
    case False
    then have "visit_children d (c # cs) s = visit_children d cs s" by auto
    then show ?thesis using Cons.IH [OF kcs, of s] by simp
  next
    case True
    let ?s = "\<lparr>crate_map = set_depth c (d + 1) (crate_map s),
              visited = insert c (visited s),
              queue = queue s @ [(c, d + 1)]\<rparr>"
    have "visit_children d (c # cs) s = visit_children d cs ?s" using True by simp
    then show ?thesis using Cons.IH [OF kcs, of ?s] ck by (simp add: map_of_set_depth)
  qed
qed

lemma undepth_lookup:
  "undepth a = b \<Longrightarrow> map_of a k = Some n \<Longrightarrow> map_of b k = Some (n\<lparr>depth := 0\<rparr>)"
  using map_of_undepth [of a k] by auto

lemma bfs_untouched:
  assumes nochild: "\<forall>k' n'. map_of (fst (first_pass cs)) k' = Some n' \<longrightarrow> k \<notin> set (child_crates n')"
  shows "map_of (crate_map (after_bfs cs)) k = map_of (fst (first_pass cs)) k
       \<and> (k \<in> visited (after_bfs cs) \<longleftrightarrow> k \<in> set (snd (first_pass cs)))"
proof -
  let ?cm0 = "fst (first_pass cs)"
  let ?I = "\<lambda>s. undepth (crate_map s) = ?cm0 \<and> fst ` set (queue s) \<subseteq> fst ` set (crate_map s)
             \<and> map_of (crate_map s) k = map_of ?cm0 k
             \<and> (k \<in> visited s \<longleftrightarrow> k \<in> set (snd (first_pass cs)))"
  have "\<exists>s'. bfs (seeded cs) = Inr s' \<and> ?I s' \<and> queue s' = []"
  proof (rule bfs_invariant [where I = ?I])
    show "?I (seeded cs)"
      using seeded_queue_keys [of cs] first_pass_facts(5) [of cs] by (simp add: seeded_def)
  next
    fix s :: bfs_state and k' d rest node
    assume I: "?I s" and q: "queue s = (k', d) # rest" and node: "map_of (crate_map s) k' = Some node"
    let ?s = "visit_children d (child_crates node) (s\<lparr>queue := rest\<rparr>)"
    have "map_of ?cm0 k' = Some (node\<lparr>depth := 0\<rparr>)"
      using undepth_lookup [OF _ node] I by blast
    then have nk: "k \<notin> set (child_crates node)" using nochild by fastforce
    have "fst ` set (queue (s\<lparr>queue := rest\<rparr>)) \<subseteq> fst ` set (crate_map (s\<lparr>queue := rest\<rparr>))"
      using I q by auto
    then have "fst ` set (queue ?s) \<subseteq> fst ` set (crate_map ?s)"
      by (rule visit_children_queue_keys)
    moreover have "undepth (crate_map ?s) = ?cm0" using I by simp
    moreover have "map_of (crate_map ?s) k = map_of ?cm0 k"
      "k \<in> visited ?s \<longleftrightarrow> k \<in> set (snd (first_pass cs))"
      using visit_children_untouched [OF nk, of d "s\<lparr>queue := rest\<rparr>"] I by simp_all
    ultimately show "?I ?s" by blast
  next
    fix s :: bfs_state
    assume "?I s"
    then show "fst ` set (queue s) \<subseteq> set (map fst (crate_map s))" by simp
  qed
  then show ?thesis using bfs_seeded(1) [of cs] by auto
qed

lemma parent_depths_absent:
  "\<forall>p \<in> set ps. map_of cm p = None \<Longrightarrow> parent_depths cm ps = []"
  by (induction ps) (auto simp: parent_depths_def)

lemma handle_unvisited_step_None:
  "map_of (fst (handle_unvisited_step V pk acc)) p = None \<longleftrightarrow> map_of (fst acc) p = None"
proof -
  have "fst ` set (fst (handle_unvisited_step V pk acc)) = fst ` set (fst acc)"
    using handle_unvisited_step_keys [of V pk acc] by (metis list.set_map)
  then show ?thesis using in_keys_iff [of p "fst acc"]
      in_keys_iff [of p "fst (handle_unvisited_step V pk acc)"] by auto
qed

lemma orphan_step:
  assumes "map_of (fst acc) k = Some n" and "parent_crates n \<noteq> []"
    and "\<forall>p \<in> set (parent_crates n). map_of (fst acc) p = None" and "depth n = 0"
  shows "map_of (fst (handle_unvisited_step V pk acc)) k = Some n"
proof (cases "pk = k")
  case False
  then show ?thesis using assms(1) by (simp add: handle_unvisited_step_other)
next
  case True
  obtain cm rs where acc: "acc = (cm, rs)" by (cases acc)
  have "n\<lparr>depth := 0\<rparr> = n" using assms(4) by simp
  then show ?thesis
    using True assms acc parent_depths_absent [of "parent_crates n" cm]
    by (simp add: handle_unvisited_step_def min_default_def map_of_set_depth)
qed

lemma orphan_fold:
  assumes "map_of (fst acc) k = Some n" and "parent_crates n \<noteq> []"
    and "\<forall>p \<in> set (parent_crates n). map_of (fst acc) p = None" and "depth n = 0"
  shows "map_of (fst (fold (handle_unvisited_step V) ks acc)) k = Some n"
  using assms
proof (induction ks arbitrary: acc)
  case Nil
  then show ?case by simp
next
  case (Cons a ks)
  have 1: "map_of (fst (handle_unvisited_step V a acc)) k = Some n"
    using orphan_step [OF Cons.prems] .
  have 2: "\<forall>p \<in> set (parent_crates n). map_of (fst (handle_unvisited_step V a acc)) p = None"
    using Cons.prems(3) by (simp add: handle_unvisited_step_None)
  show ?case using Cons.IH [OF 1 Cons.prems(2) 2 Cons.prems(4)] by simp
qed

lemma data_of_None: "data_of a = data_of b \<Longrightarrow> map_of a k = None \<longleftrightarrow> map_of b k = None"
  using map_of_data_of [of a k] map_of_data_of [of b k] by auto

lemma undepth_None: "map_of (undepth a) k = None \<longleftrightarrow> map_of a k = None"
  by (simp add: map_of_undepth)

lemma orphan_depth:
  assumes n: "map_of (fst (final_pass cs)) k = Some n" and ne: "parent_crates n \<noteq> []"
    and ab: "\<forall>p \<in> set (parent_crates n). map_of (fst (final_pass cs)) p = None"
    and nc: "\<forall>k' n'. map_of (fst (final_pass cs)) k' = Some n' \<longrightarrow> k \<notin> set (child_crates n')"
  shows "depth n = 0"
proof -
  let ?cm0 = "fst (first_pass cs)" and ?cm1 = "crate_map (after_bfs cs)"
  from data_of_lookup [OF final_pass_facts(2) n] obtain n0 where
    n0: "map_of ?cm0 k = Some n0" "crate_data.truncate n0 = crate_data.truncate n" by blast
  have p0: "parent_crates n0 = parent_crates n"
    using n0(2) truncate_fields(1) [of n0] truncate_fields(1) [of n] by simp
  have d0: "depth n0 = 0" using first_pass_facts(7) n0(1) by blast
  have nc0: "\<forall>k' n'. map_of ?cm0 k' = Some n' \<longrightarrow> k \<notin> set (child_crates n')"
  proof (intro allI impI)
    fix k' n' assume "map_of ?cm0 k' = Some n'"
    from data_of_lookup [OF final_pass_facts(2) [symmetric] this] obtain m where
      m: "map_of (fst (final_pass cs)) k' = Some m" "crate_data.truncate m = crate_data.truncate n'"
      by blast
    have "child_crates m = child_crates n'"
      using m(2) truncate_fields(2) [of m] truncate_fields(2) [of n'] by simp
    then show "k \<notin> set (child_crates n')" using nc [rule_format, OF m(1)] by simp
  qed
  have 1: "map_of ?cm1 k = Some n0" using bfs_untouched [OF nc0] n0(1) by simp
  have ab1: "\<forall>p \<in> set (parent_crates n0). map_of ?cm1 p = None"
  proof
    fix p assume "p \<in> set (parent_crates n0)"
    then have "map_of (fst (final_pass cs)) p = None" using ab p0 by simp
    then have "map_of ?cm0 p = None"
      using data_of_None [OF final_pass_facts(2), of cs p] by simp
    then show "map_of ?cm1 p = None"
      using undepth_None [of ?cm1 p] after_bfs_undepth [of cs] by simp
  qed
  have "map_of (fst (final_pass cs)) k = Some n0"
    unfolding final_pass_def handle_unvisited_def
    using orphan_fold [of "(?cm1, snd (first_pass cs))" k n0] 1 ab1 p0 ne d0 by simp
  then show ?thesis using n d0 by simp
qed

text \<open>
  Claim C3, as amended. A record with at least one listed parent, all of them absent from the
  snapshot, is not promoted to a root: its node keeps \<^verbatim>\<open>is_root = False\<close>, and its key is in the
  root set only if an earlier record with the same key had no parents. Its depth is 0 whenever
  no node of the graph lists it as a child.
\<close>

theorem orphan_depth_zero_not_root:
  assumes "build_supply_chain_graph crate_list = Inr g"
    and "node_of g k = Some n"
    and "parent_crates n \<noteq> []"
    and "\<forall>p \<in> set (parent_crates n). node_of g p = None"
  shows "\<not> is_root n
       \<and> ((\<forall>c \<in> set crate_list. pubkey c = k \<longrightarrow> parent_crates c \<noteq> []) \<longrightarrow> k \<notin> set (root_crates g))
       \<and> ((\<forall>k' n'. node_of g k' = Some n' \<longrightarrow> k \<notin> set (child_crates n')) \<longrightarrow> depth n = 0)"
proof -
  note g = build_InrD [OF assms(1)]
  have 1: "\<not> is_root n"
    using final_pass_facts(3) [of crate_list] g(1) assms(2,3) by (simp add: flags_ok_def node_of_def)
  have "set (root_crates g) = {pubkey c |c. c \<in> set crate_list \<and> parent_crates c = []}"
    using g(2) final_pass_facts(4) [of crate_list] first_pass_facts(4) [of crate_list] by simp
  then have 2: "(\<forall>c \<in> set crate_list. pubkey c = k \<longrightarrow> parent_crates c \<noteq> []) \<longrightarrow> k \<notin> set (root_crates g)"
    by auto
  have 3: "(\<forall>k' n'. node_of g k' = Some n' \<longrightarrow> k \<notin> set (child_crates n')) \<longrightarrow> depth n = 0"
    using orphan_depth [of crate_list k n] assms(2,3,4) g(1) by (simp add: node_of_def)
  show ?thesis using 1 2 3 by blast
qed

lemma orphan_input_eval:
  "case build_supply_chain_graph orphan_input of Inl e \<Rightarrow> False
   | Inr g \<Rightarrow> (case node_of g ''E'' of None \<Rightarrow> False
       | Some n \<Rightarrow> parent_crates n = [''missing-key''] \<and> node_of g ''missing-key'' = None
            \<and> crates g = [(''E'', n)] \<and> child_crates n = [])"
  by code_simp

theorem orphan_depth_zero_not_root_witness:
  "\<exists>g n. build_supply_chain_graph orphan_input = Inr g \<and> node_of g ''E'' = Some n
     \<and> parent_crates n \<noteq> [] \<and> (\<forall>p \<in> set (parent_crates n). node_of g p = None)
     \<and> (\<forall>c \<in> set orphan_input. pubkey c = ''E'' \<longrightarrow> parent_crates c \<noteq> [])
     \<and> (\<forall>k' n'. node_of g k' = Some n' \<longrightarrow> ''E'' \<notin> set (child_crates n'))
     \<and> \<not> is_root n \<and> ''E'' \<notin> set (root_crates g) \<and> depth n = 0"
proof -
  from sum_caseD [OF orphan_input_eval] obtain g where g: "build_supply_chain_graph orphan_input = Inr g"
    and "case node_of g ''E'' of None \<Rightarrow> False
       | Some n \<Rightarrow> parent_crates n = [''missing-key''] \<and> node_of g ''missing-key'' = None
            \<and> crates g = [(''E'', n)] \<and> child_crates n = []"
    by blast
  then obtain n where n: "node_of g ''E'' = Some n" "parent_crates n = [''missing-key'']"
    "node_of g ''missing-key'' = None" "crates g = [(''E'', n)]" "child_crates n = []"
    by (cases "node_of g ''E''") auto
  have h1: "parent_crates n \<noteq> []" and h2: "\<forall>p \<in> set (parent_crates n). node_of g p = None"
    using n by simp_all
  have h3: "\<forall>c \<in> set orphan_input. pubkey c = ''E'' \<longrightarrow> parent_crates c \<noteq> []"
    by (simp add: orphan_input_def crate_def)
  have h4: "\<forall>k' n'. node_of g k' = Some n' \<longrightarrow> ''E'' \<notin> set (child_crates n')"
    using n(4,5) by (auto simp: node_of_def split: if_splits)
  from orphan_depth_zero_not_root [OF g n(1) h1 h2] h3 h4
  show ?thesis using g n(1) h1 h2 by blast
qed

text \<open>Claim C3 as stated fails on the single record E with the absent parent \<open>missing-key\<close>:
  the node of E is not flagged as a root.\<close>

theorem orphan_promoted_counterexample:
  "result_is_root (build_supply_chain_graph orphan_input) ''E'' = Some False"
  by code_simp

definition cycle_input :: "crate_data list" where
  "cycle_input = [crate ''F'' [''G''] [''G''], crate ''G'' [''F''] [''F'']]"

definition mix_input :: "crate_data list" where
  "mix_input =
     [crate ''A'' [] [''B'', ''C''], crate ''B'' [''A''] [''D''], crate ''C'' [''A''] [''D''],
      crate ''D'' [''C'', ''B''] []]"

lemma bfs_empty_queue: "queue s = [] \<Longrightarrow> bfs s = Inr s"
  by (subst bfs.simps) simp

text \<open>Claim C6 as stated fails on F, G: the depths are 1 and 2, not 0, and the lineage of F is
  [F, G], not [F].\<close>

theorem two_cycle_counterexample:
  "result_depth (build_supply_chain_graph cycle_input) ''F'' = Some 1
   \<and> result_depth (build_supply_chain_graph cycle_input) ''G'' = Some 2
   \<and> result_lineage (build_supply_chain_graph cycle_input) ''F'' = Some [''F'', ''G'']
   \<and> result_lineage (build_supply_chain_graph cycle_input) ''G'' = Some [''G'', ''F'']"
  by code_simp

lemma first_min_fold:
  "\<exists>xs ys. b # ps = xs @ fold (\<lambda>p best. if length p < length best then p else best) ps b # ys
     \<and> (\<forall>x \<in> set xs. length (fold (\<lambda>p best. if length p < length best then p else best) ps b) < length x)
     \<and> (\<forall>y \<in> set ys. length (fold (\<lambda>p best. if length p < length best then p else best) ps b) \<le> length y)"
proof (induction ps rule: rev_induct)
  case Nil
  show ?case by (rule exI [of _ "[]"], rule exI [of _ "[]"]) simp
next
  case (snoc p ps)
  let ?f = "\<lambda>p best. if length p < length best then p else best"
  let ?l = "fold ?f ps b"
  from snoc obtain xs ys where s: "b # ps = xs @ ?l # ys"
    "\<forall>x \<in> set xs. length ?l < length x" "\<forall>y \<in> set ys. length ?l \<le> length y"
    by blast
  show ?case
  proof (cases "length p < length ?l")
    case True
    then have l': "fold ?f (ps @ [p]) b = p" by simp
    have "b # ps @ [p] = (xs @ ?l # ys) @ p # []" using s(1) by simp
    moreover have "\<forall>x \<in> set (xs @ ?l # ys). length p < length x"
      using s(2,3) True by auto
    ultimately show ?thesis unfolding l'
      by (intro exI [of _ "xs @ ?l # ys"] exI [of _ "[]"]) simp
  next
    case False
    then have l': "fold ?f (ps @ [p]) b = ?l" by simp
    have "b # ps @ [p] = xs @ ?l # (ys @ [p])" using s(1) by simp
    moreover have "\<forall>y \<in> set (ys @ [p]). length ?l \<le> length y" using s(3) False by auto
    ultimately show ?thesis unfolding l' using s(2) by blast
  qed
qed

lemma lineage_of_first_min:
  assumes "trace_to_roots cm k {} \<noteq> []"
  shows "\<exists>xs ys. trace_to_roots cm k {} = xs @ lineage_of cm k # ys
     \<and> (\<forall>x \<in> set xs. length (lineage_of cm k) < length x)
     \<and> (\<forall>y \<in> set ys. length (lineage_of cm k) \<le> length y)"
proof -
  from assms obtain p ps where t: "trace_to_roots cm k {} = p # ps"
    by (cases "trace_to_roots cm k {}") auto
  then have "lineage_of cm k = fold (\<lambda>p best. if length p < length best then p else best) ps p"
    by (simp add: lineage_of_def min_by_len_def)
  then show ?thesis using first_min_fold [of p ps] t by simp
qed

lemma candidates_append:
  "candidates cm pk V (ps @ qs) = candidates cm pk V ps @ candidates cm pk V qs"
  by (simp add: candidates_def)

lemma candidates_second:
  "p \<in> set (candidates cm pk V ps) \<Longrightarrow> p ! 1 \<in> set ps"
proof -
  assume "p \<in> set (candidates cm pk V ps)"
  then obtain q p' where q: "q \<in> set ps" "p' \<in> set (trace_to_roots cm q (insert pk V))"
      "p' \<noteq> []" "p = pk # p'"
    by (auto simp: candidates_mem)
  have "hd p' = q" using trace_hd [OF q(2)] by simp
  then have "p ! 1 = q" using q(3,4) by (cases p') auto
  then show ?thesis using q(1) by simp
qed

lemma tie_break:
  assumes n: "map_of cm k = Some n" and nr: "\<not> is_root n"
    and ps: "parent_crates n = ps1 @ q # ps2"
    and path: "path \<in> set (trace_to_roots cm q {k})"
  shows "length (lineage_of cm k) \<le> Suc (length path)
       \<and> (length (lineage_of cm k) = Suc (length path) \<longrightarrow> lineage_of cm k ! 1 \<in> set (ps1 @ [q]))"
proof -
  let ?l = "lineage_of cm k"
  let ?C1 = "candidates cm k {} (ps1 @ [q])" and ?C2 = "candidates cm k {} ps2"
  have pne: "path \<noteq> []" using trace_hd [OF path] by simp
  have in1: "k # path \<in> set ?C1" using path pne by (auto simp: candidates_mem)
  have all: "candidates cm k {} (parent_crates n) = ?C1 @ ?C2"
    unfolding ps using candidates_append [of cm k "{}" "ps1 @ [q]" ps2] by simp
  then have ne: "candidates cm k {} (parent_crates n) \<noteq> []" using in1 by auto
  have tr: "trace_to_roots cm k {} = ?C1 @ ?C2"
    using trace_step [of k "{}" cm n] n nr ps ne all by simp
  then have "trace_to_roots cm k {} \<noteq> []" using in1 by auto
  from lineage_of_first_min [OF this] obtain xs ys where
    s: "?C1 @ ?C2 = xs @ ?l # ys" "\<forall>x \<in> set xs. length ?l < length x"
       "\<forall>y \<in> set ys. length ?l \<le> length y"
    using tr by auto
  have "k # path \<in> set (xs @ ?l # ys)" using in1 s(1) by (metis Un_iff set_append)
  moreover have "\<forall>z \<in> set (xs @ ?l # ys). length ?l \<le> length z"
    using s(2,3) by (auto simp: less_imp_le)
  ultimately have "length ?l \<le> length (k # path)" by blast
  then have le: "length ?l \<le> Suc (length path)" by simp
  have "?l ! 1 \<in> set (ps1 @ [q])" if eq: "length ?l = Suc (length path)"
  proof -
    have "k # path \<notin> set xs"
    proof
      assume "k # path \<in> set xs"
      then have "length ?l < length (k # path)" using s(2) by blast
      then show False using eq by simp
    qed
    have "length xs < length ?C1"
    proof (rule ccontr)
      assume "\<not> length xs < length ?C1"
      then have "length ?C1 \<le> length xs" by simp
      then have "take (length ?C1) xs = ?C1"
        using s(1) by (metis append_eq_append_conv_if append_eq_conv_conj)
      then have "set ?C1 \<subseteq> set xs" by (metis set_take_subset)
      then show False using in1 \<open>k # path \<notin> set xs\<close> by blast
    qed
    then have "?C1 ! length xs = ?l"
      using s(1) by (metis nth_append nth_append_length)
    then have "?l \<in> set ?C1" using \<open>length xs < length ?C1\<close> by (metis nth_mem)
    then show ?thesis by (rule candidates_second)
  qed
  then show ?thesis using le by blast
qed

lemma trace_top:
  assumes "flags_ok cm rs" and "map_of cm k = Some n"
  shows "trace_to_roots cm k {} =
           (if candidates cm k {} (parent_crates n) = [] then [[k]]
            else candidates cm k {} (parent_crates n))"
proof (cases "parent_crates n = []")
  case True
  then show ?thesis using trace_root [of k "{}" cm n] assms(2) by (simp add: candidates_def)
next
  case False
  then have "\<not> is_root n" using assms by (simp add: flags_ok_def)
  then show ?thesis using trace_step [of k "{}" cm n] assms(2) False by simp
qed

text \<open>
  Claim C5, as amended. The candidate paths of a key are enumerated parent by parent in the
  order of the node's \<^verbatim>\<open>parent_crates\<close> list (all paths through the first listed parent, then
  all paths through the second, and so on), and the lineage selected is the first candidate of
  minimal length in that enumeration: every candidate before it is strictly longer and none
  after it is shorter. Keys are never compared lexicographically. For A a root, B and C with
  parent A, and D with parents [C, B], the lineage of D is [D, C, A].
\<close>

theorem tie_break_by_parent_order:
  assumes "build_supply_chain_graph crate_list = Inr g"
    and "node_of g k = Some n"
  shows "\<exists>l xs ys. lineage g k = Some l
           \<and> trace_to_roots (crates g) k {} = xs @ l # ys
           \<and> (\<forall>x \<in> set xs. length l < length x)
           \<and> (\<forall>y \<in> set ys. length l \<le> length y)
           \<and> trace_to_roots (crates g) k {} =
                (if candidates (crates g) k {} (parent_crates n) = [] then [[k]]
                 else candidates (crates g) k {} (parent_crates n))"
proof -
  note g = build_InrD [OF assms(1)]
  let ?cm = "fst (final_pass crate_list)"
  have n: "map_of ?cm k = Some n" using assms(2) g(1) by (simp add: node_of_def)
  have top: "trace_to_roots ?cm k {} =
           (if candidates ?cm k {} (parent_crates n) = [] then [[k]]
            else candidates ?cm k {} (parent_crates n))"
    using trace_top [OF final_pass_facts(3) n] .
  then have ne: "trace_to_roots ?cm k {} \<noteq> []" by (auto split: if_splits)
  have "k \<in> fst ` set ?cm" using n by (simp add: in_keys_iff)
  then have l: "lineage g k = Some (lineage_of ?cm k)"
    using map_of_build_lineages [OF final_pass_facts(5), of crate_list k] g(4)
    by (simp add: lineage_def)
  from lineage_of_first_min [OF ne] obtain xs ys where s:
    "trace_to_roots ?cm k {} = xs @ lineage_of ?cm k # ys"
    "\<forall>x \<in> set xs. length (lineage_of ?cm k) < length x"
    "\<forall>y \<in> set ys. length (lineage_of ?cm k) \<le> length y"
    by blast
  have "lineage g k = Some (lineage_of ?cm k)
           \<and> trace_to_roots (crates g) k {} = xs @ lineage_of ?cm k # ys
           \<and> (\<forall>x \<in> set xs. length (lineage_of ?cm k) < length x)
           \<and> (\<forall>y \<in> set ys. length (lineage_of ?cm k) \<le> length y)
           \<and> trace_to_roots (crates g) k {} =
                (if candidates (crates g) k {} (parent_crates n) = [] then [[k]]
                 else candidates (crates g) k {} (parent_crates n))"
    unfolding g(1) using l s top by blast
  then show ?thesis by blast
qed

lemma mix_input_eval:
  "case build_supply_chain_graph mix_input of Inl e \<Rightarrow> False
   | Inr g \<Rightarrow> (case node_of g ''D'' of None \<Rightarrow> False
       | Some n \<Rightarrow> parent_crates n = [''C'', ''B'']
            \<and> trace_to_roots (crates g) ''D'' {} = [[''D'', ''C'', ''A''], [''D'', ''B'', ''A'']]
            \<and> lineage g ''D'' = Some [''D'', ''C'', ''A''])"
  by code_simp

theorem tie_break_by_parent_order_witness:
  "\<exists>g n. build_supply_chain_graph mix_input = Inr g \<and> node_of g ''D'' = Some n
     \<and> parent_crates n = [''C'', ''B'']
     \<and> trace_to_roots (crates g) ''D'' {} = [[''D'', ''C'', ''A''], [''D'', ''B'', ''A'']]
     \<and> lineage g ''D'' = Some [''D'', ''C'', ''A'']
     \<and> (\<exists>l xs ys. lineage g ''D'' = Some l
           \<and> trace_to_roots (crates g) ''D'' {} = xs @ l # ys
           \<and> (\<forall>x \<in> set xs. length l < length x)
           \<and> (\<forall>y \<in> set ys. length l \<le> length y)
           \<and> trace_to_roots (crates g) ''D'' {} =
                (if candidates (crates g) ''D'' {} (parent_crates n) = [] then [[''D'']]
                 else candidates (crates g) ''D'' {} (parent_crates n)))"
proof -
  from sum_caseD [OF mix_input_eval] obtain g where g: "build_supply_chain_graph mix_input = Inr g"
    and "case node_of g ''D'' of None \<Rightarrow> False
       | Some n \<Rightarrow> parent_crates n = [''C'', ''B'']
            \<and> trace_to_roots (crates g) ''D'' {} = [[''D'', ''C'', ''A''], [''D'', ''B'', ''A'']]
            \<and> lineage g ''D'' = Some [''D'', ''C'', ''A'']"
    by blast
  then obtain n where n: "node_of g ''D'' = Some n" "parent_crates n = [''C'', ''B'']"
    "trace_to_roots (crates g) ''D'' {} = [[''D'', ''C'', ''A''], [''D'', ''B'', ''A'']]"
    "lineage g ''D'' = Some [''D'', ''C'', ''A'']"
    by (cases "node_of g ''D''") auto
  from tie_break_by_parent_order [OF g n(1)] g n show ?thesis by blast
qed

text \<open>Claim C5 as stated fails when D lists its parents as [C, B]: both [D, B, A] and [D, C, A]
  are candidates of minimal length, and the lineage selected goes through C, the
  lexicographically larger key.\<close>

theorem tie_break_lexicographic_counterexample:
  "result_lineage (build_supply_chain_graph mix_input) ''D'' = Some [''D'', ''C'', ''A'']"
  by code_simp

section \<open>Breadth-first depths are shortest distances\<close>

text \<open>The edges the breadth-first pass follows: from a key of the dictionary to each listed
  child that is a key of the dictionary.\<close>

definition child_edges :: "crate_map \<Rightarrow> (string \<times> string) set" where
  "child_edges cm =
     {(u, c). \<exists>n. map_of cm u = Some n \<and> c \<in> set (child_crates n) \<and> map_of cm c \<noteq> None}"

text \<open>\<open>reach cm R v n\<close>: some walk of \<open>n\<close> such edges leads from a key in \<open>R\<close> to \<open>v\<close>.\<close>

inductive reach :: "crate_map \<Rightarrow> string set \<Rightarrow> string \<Rightarrow> nat \<Rightarrow> bool"
  for cm :: crate_map and R :: "string set" where
  reach_root: "r \<in> R \<Longrightarrow> reach cm R r 0"
| reach_step: "reach cm R u n \<Longrightarrow> (u, c) \<in> child_edges cm \<Longrightarrow> reach cm R c (Suc n)"

inductive_cases reach_zeroE: "reach cm R v 0"
inductive_cases reach_SucE: "reach cm R v (Suc n)"

definition is_dist :: "crate_map \<Rightarrow> string set \<Rightarrow> string \<Rightarrow> nat \<Rightarrow> bool" where
  "is_dist cm R v n \<longleftrightarrow> reach cm R v n \<and> (\<forall>m. reach cm R v m \<longrightarrow> n \<le> m)"

definition dep :: "crate_map \<Rightarrow> string \<Rightarrow> int option" where
  "dep cm k = map_option depth (map_of cm k)"

lemma is_dist_unique: "is_dist cm R v n \<Longrightarrow> is_dist cm R v m \<Longrightarrow> n = m"
  by (auto simp: is_dist_def intro: le_antisym)

lemma reach_is_dist: "reach cm R v n \<Longrightarrow> \<exists>m. is_dist cm R v m"
proof -
  assume "reach cm R v n"
  then have "reach cm R v (LEAST m. reach cm R v m)" by (rule LeastI)
  moreover have "\<forall>m. reach cm R v m \<longrightarrow> (LEAST m. reach cm R v m) \<le> m"
    by (simp add: Least_le)
  ultimately show ?thesis unfolding is_dist_def by blast
qed

lemma visit_children_char:
  "\<exists>ns. set ns = {c \<in> set cs. map_of (crate_map s) c \<noteq> None \<and> c \<notin> visited s}
     \<and> visited (visit_children d cs s) = visited s \<union> set ns
     \<and> queue (visit_children d cs s) = queue s @ map (\<lambda>c. (c, d + 1)) ns
     \<and> (\<forall>v. map_of (crate_map (visit_children d cs s)) v =
           (if v \<in> set ns then map_option (\<lambda>n. n\<lparr>depth := d + 1\<rparr>) (map_of (crate_map s) v)
            else map_of (crate_map s) v))"
proof (induction cs arbitrary: s)
  case Nil
  show ?case by simp
next
  case (Cons c cs)
  show ?case
  proof (cases "map_of (crate_map s) c \<noteq> None \<and> c \<notin> visited s")
    case False
    then have e: "visit_children d (c # cs) s = visit_children d cs s" by auto
    have "{c' \<in> set (c # cs). map_of (crate_map s) c' \<noteq> None \<and> c' \<notin> visited s}
        = {c' \<in> set cs. map_of (crate_map s) c' \<noteq> None \<and> c' \<notin> visited s}"
      using False by auto
    then show ?thesis using Cons.IH [of s] unfolding e by simp
  next
    case True
    let ?s = "\<lparr>crate_map = set_depth c (d + 1) (crate_map s),
              visited = insert c (visited s),
              queue = queue s @ [(c, d + 1)]\<rparr>"
    have e: "visit_children d (c # cs) s = visit_children d cs ?s" using True by simp
    from Cons.IH [of ?s] obtain ns where ns:
      "set ns = {c' \<in> set cs. map_of (crate_map ?s) c' \<noteq> None \<and> c' \<notin> visited ?s}"
      "visited (visit_children d cs ?s) = visited ?s \<union> set ns"
      "queue (visit_children d cs ?s) = queue ?s @ map (\<lambda>c. (c, d + 1)) ns"
      "\<forall>v. map_of (crate_map (visit_children d cs ?s)) v =
           (if v \<in> set ns then map_option (\<lambda>n. n\<lparr>depth := d + 1\<rparr>) (map_of (crate_map ?s) v)
            else map_of (crate_map ?s) v)"
      by blast
    have cn: "c \<notin> set ns" using ns(1) by simp
    have 1: "set (c # ns) = {c' \<in> set (c # cs). map_of (crate_map s) c' \<noteq> None \<and> c' \<notin> visited s}"
      using ns(1) True by (auto simp: map_of_set_depth_None)
    have 2: "visited (visit_children d (c # cs) s) = visited s \<union> set (c # ns)"
      unfolding e ns(2) by auto
    have 3: "queue (visit_children d (c # cs) s) = queue s @ map (\<lambda>c. (c, d + 1)) (c # ns)"
      unfolding e ns(3) by simp
    have 4: "\<forall>v. map_of (crate_map (visit_children d (c # cs) s)) v =
           (if v \<in> set (c # ns) then map_option (\<lambda>n. n\<lparr>depth := d + 1\<rparr>) (map_of (crate_map s) v)
            else map_of (crate_map s) v)"
      unfolding e using ns(4) cn by (auto simp: map_of_set_depth)
    show ?thesis using 1 2 3 4 by blast
  qed
qed

definition bfs_inv :: "crate_map \<Rightarrow> string set \<Rightarrow> bfs_state \<Rightarrow> bool" where
  "bfs_inv cm0 R s \<longleftrightarrow>
     undepth (crate_map s) = cm0 \<and> R \<subseteq> visited s \<and>
     (\<forall>v \<in> visited s. \<exists>n. is_dist cm0 R v n \<and> dep (crate_map s) v = Some (int n)) \<and>
     (\<forall>x \<in> set (queue s). fst x \<in> visited s \<and> dep (crate_map s) (fst x) = Some (snd x)) \<and>
     sorted (map snd (queue s)) \<and>
     (\<forall>x \<in> set (queue s). snd x \<le> snd (hd (queue s)) + 1) \<and>
     (\<forall>u \<in> visited s. u \<notin> fst ` set (queue s) \<longrightarrow>
        (\<forall>c. (u, c) \<in> child_edges cm0 \<longrightarrow> c \<in> visited s)) \<and>
     (queue s \<noteq> [] \<longrightarrow>
        (\<forall>v n. reach cm0 R v n \<longrightarrow> int n \<le> snd (hd (queue s)) \<longrightarrow> v \<in> visited s)) \<and>
     (\<forall>v. v \<notin> visited s \<longrightarrow> map_of (crate_map s) v = map_of cm0 v)"

lemma child_edges_undepth: "child_edges (undepth cm) = child_edges cm"
  by (auto simp: child_edges_def map_of_undepth)

lemma bfs_inv_step:
  assumes inv: "bfs_inv cm0 R s" and q: "queue s = (u, d0) # rest"
    and node: "map_of (crate_map s) u = Some node"
  shows "bfs_inv cm0 R (visit_children d0 (child_crates node) (s\<lparr>queue := rest\<rparr>))"
proof -
  let ?V = "visited s" and ?cm = "crate_map s"
  let ?s' = "visit_children d0 (child_crates node) (s\<lparr>queue := rest\<rparr>)"
  from inv have a: "undepth ?cm = cm0" and b: "R \<subseteq> ?V"
    and c: "\<forall>v \<in> ?V. \<exists>n. is_dist cm0 R v n \<and> dep ?cm v = Some (int n)"
    and d: "\<forall>x \<in> set (queue s). fst x \<in> ?V \<and> dep ?cm (fst x) = Some (snd x)"
    and e1: "sorted (map snd (queue s))"
    and e2: "\<forall>x \<in> set (queue s). snd x \<le> snd (hd (queue s)) + 1"
    and f: "\<forall>u \<in> ?V. u \<notin> fst ` set (queue s) \<longrightarrow> (\<forall>c. (u, c) \<in> child_edges cm0 \<longrightarrow> c \<in> ?V)"
    and g: "queue s \<noteq> [] \<longrightarrow> (\<forall>v n. reach cm0 R v n \<longrightarrow> int n \<le> snd (hd (queue s)) \<longrightarrow> v \<in> ?V)"
    and h: "\<forall>v. v \<notin> ?V \<longrightarrow> map_of ?cm v = map_of cm0 v"
    unfolding bfs_inv_def by blast+
  from visit_children_char [of "child_crates node" "s\<lparr>queue := rest\<rparr>" d0] obtain ns where
    N: "set ns = {c \<in> set (child_crates node). map_of ?cm c \<noteq> None \<and> c \<notin> ?V}"
    and V': "visited ?s' = ?V \<union> set ns"
    and Q': "queue ?s' = rest @ map (\<lambda>c. (c, d0 + 1)) ns"
    and M': "\<forall>v. map_of (crate_map ?s') v =
           (if v \<in> set ns then map_option (\<lambda>n. n\<lparr>depth := d0 + 1\<rparr>) (map_of ?cm v)
            else map_of ?cm v)"
    by auto
  have ce: "child_edges ?cm = child_edges cm0" using child_edges_undepth [of ?cm] a by simp
  have edge_iff: "(u, c) \<in> child_edges cm0 \<longleftrightarrow> c \<in> set (child_crates node) \<and> map_of ?cm c \<noteq> None" for c
    unfolding ce [symmetric] using node by (auto simp: child_edges_def)
  have uV: "u \<in> ?V" and udep: "dep ?cm u = Some d0" using d q by auto
  from c uV obtain nu where nu: "is_dist cm0 R u nu" "dep ?cm u = Some (int nu)" by blast
  have d0: "d0 = int nu" using udep nu(2) by simp
  have hd0: "snd (hd (queue s)) = d0" using q by simp
  have dep_old: "dep (crate_map ?s') v = dep ?cm v" if "v \<notin> set ns" for v
    using M' that by (simp add: dep_def)
  have dep_new: "dep (crate_map ?s') v = Some (d0 + 1)" if "v \<in> set ns" for v
  proof -
    from that N obtain m where "map_of ?cm v = Some m" by auto
    then show ?thesis using M' that by (simp add: dep_def)
  qed
  have disj: "v \<notin> set ns" if "v \<in> ?V" for v using N that by auto
  have rest_ge: "\<forall>x \<in> set rest. d0 \<le> snd x" using e1 q by auto
  have rest_le: "\<forall>x \<in> set rest. snd x \<le> d0 + 1" using e2 q by auto
  \<comment> \<open>the nine parts of the invariant for the new state\<close>
  have a': "undepth (crate_map ?s') = cm0" using a by simp
  have b': "R \<subseteq> visited ?s'" using b V' by auto
  have c': "\<forall>v \<in> visited ?s'. \<exists>n. is_dist cm0 R v n \<and> dep (crate_map ?s') v = Some (int n)"
  proof
    fix v assume "v \<in> visited ?s'"
    then consider "v \<in> ?V" | "v \<in> set ns" using V' by auto
    then show "\<exists>n. is_dist cm0 R v n \<and> dep (crate_map ?s') v = Some (int n)"
    proof cases
      case 1
      then show ?thesis using c dep_old [OF disj [OF 1]] by auto
    next
      case 2
      then have ed: "(u, v) \<in> child_edges cm0" and nv: "v \<notin> ?V"
        using N edge_iff by auto
      have r: "reach cm0 R v (Suc nu)"
        using nu(1) ed by (auto simp: is_dist_def intro: reach_step)
      have "Suc nu \<le> m" if m: "reach cm0 R v m" for m
      proof (rule ccontr)
        assume "\<not> Suc nu \<le> m"
        then have "int m \<le> snd (hd (queue s))" using hd0 d0 by simp
        then have "v \<in> ?V" using g q m by auto
        then show False using nv by simp
      qed
      then have "is_dist cm0 R v (Suc nu)" using r by (simp add: is_dist_def)
      moreover have "dep (crate_map ?s') v = Some (int (Suc nu))"
        using dep_new [OF 2] d0 by simp
      ultimately show ?thesis by blast
    qed
  qed
  have d': "\<forall>x \<in> set (queue ?s'). fst x \<in> visited ?s' \<and> dep (crate_map ?s') (fst x) = Some (snd x)"
  proof
    fix x assume "x \<in> set (queue ?s')"
    then consider "x \<in> set rest" | "fst x \<in> set ns" "snd x = d0 + 1" using Q' by auto
    then show "fst x \<in> visited ?s' \<and> dep (crate_map ?s') (fst x) = Some (snd x)"
    proof cases
      case 1
      then have "fst x \<in> ?V" "dep ?cm (fst x) = Some (snd x)" using d q by auto
      then show ?thesis using V' dep_old [OF disj] by auto
    next
      case 2
      then show ?thesis using V' dep_new by auto
    qed
  qed
  have e1': "sorted (map snd (queue ?s'))"
  proof -
    have "sorted (map snd rest)" using e1 q by simp
    moreover have "sorted (map snd (map (\<lambda>c. (c, d0 + 1)) ns))"
      by (induction ns) auto
    ultimately show ?thesis using rest_le unfolding Q' by (auto simp: sorted_append)
  qed
  have all_ge: "\<forall>x \<in> set (queue ?s'). d0 \<le> snd x" using rest_ge Q' by auto
  have all_le: "\<forall>x \<in> set (queue ?s'). snd x \<le> d0 + 1" using rest_le Q' by auto
  have e2': "\<forall>x \<in> set (queue ?s'). snd x \<le> snd (hd (queue ?s')) + 1"
  proof
    fix x assume x: "x \<in> set (queue ?s')"
    then have "queue ?s' \<noteq> []" by auto
    then have "hd (queue ?s') \<in> set (queue ?s')" by simp
    then have "d0 \<le> snd (hd (queue ?s'))" using all_ge by blast
    then show "snd x \<le> snd (hd (queue ?s')) + 1" using all_le x by fastforce
  qed
  have f': "\<forall>w \<in> visited ?s'. w \<notin> fst ` set (queue ?s') \<longrightarrow>
        (\<forall>c. (w, c) \<in> child_edges cm0 \<longrightarrow> c \<in> visited ?s')"
  proof (intro ballI impI allI)
    fix w c assume w: "w \<in> visited ?s'" "w \<notin> fst ` set (queue ?s')" and wc: "(w, c) \<in> child_edges cm0"
    have wn: "w \<notin> set ns" using w(2) Q' by force
    then have wV: "w \<in> ?V" using w(1) V' by auto
    show "c \<in> visited ?s'"
    proof (cases "w = u")
      case True
      then have "c \<in> set (child_crates node)" "map_of ?cm c \<noteq> None" using wc edge_iff by auto
      then have "c \<in> ?V \<or> c \<in> set ns" using N by auto
      then show ?thesis using V' by auto
    next
      case False
      have "w \<notin> fst ` set rest" using w(2) Q' by auto
      then have "w \<notin> fst ` set (queue s)" using False q by auto
      then have "c \<in> ?V" using f wV wc by blast
      then show ?thesis using V' by auto
    qed
  qed
  have g': "queue ?s' \<noteq> [] \<longrightarrow>
        (\<forall>v n. reach cm0 R v n \<longrightarrow> int n \<le> snd (hd (queue ?s')) \<longrightarrow> v \<in> visited ?s')"
  proof (intro impI allI)
    fix v n assume ne: "queue ?s' \<noteq> []" and r: "reach cm0 R v n"
      and le: "int n \<le> snd (hd (queue ?s'))"
    have hdin: "hd (queue ?s') \<in> set (queue ?s')" using ne by simp
    then have hle: "snd (hd (queue ?s')) \<le> d0 + 1" using all_le by blast
    show "v \<in> visited ?s'"
    proof (cases "int n \<le> d0")
      case True
      then have "v \<in> ?V" using g q r hd0 by auto
      then show ?thesis using V' by auto
    next
      case False
      then have n: "int n = d0 + 1" and hd': "snd (hd (queue ?s')) = d0 + 1" using le hle by auto
      then obtain m where m: "n = Suc m" "int m = d0" using d0 by (cases n) auto
      from r [unfolded m(1)] obtain w where w: "reach cm0 R w m" "(w, v) \<in> child_edges cm0"
        by (rule reach_SucE)
      have wV: "w \<in> ?V" using g q w(1) m(2) hd0 by auto
      then have wV': "w \<in> visited ?s'" using V' by auto
      have "w \<notin> fst ` set (queue ?s')"
      proof
        assume "w \<in> fst ` set (queue ?s')"
        then obtain x where x: "x \<in> set (queue ?s')" "fst x = w" by auto
        have "sorted (map snd (queue ?s'))" by (rule e1')
        then have "snd (hd (queue ?s')) \<le> snd x"
          using x(1) ne by (cases "queue ?s'") auto
        then have xge: "d0 + 1 \<le> snd x" using hd' by simp
        have "dep (crate_map ?s') w = Some (snd x)" using d' x by auto
        moreover from c' wV' obtain nw where nw: "is_dist cm0 R w nw"
          "dep (crate_map ?s') w = Some (int nw)" by blast
        ultimately have "snd x = int nw" by simp
        moreover have "nw \<le> m" using nw(1) w(1) by (simp add: is_dist_def)
        ultimately show False using xge m(2) by simp
      qed
      then show ?thesis using f' wV' w(2) by blast
    qed
  qed
  have h': "\<forall>v. v \<notin> visited ?s' \<longrightarrow> map_of (crate_map ?s') v = map_of cm0 v"
    using h M' V' by auto
  show ?thesis
    unfolding bfs_inv_def using a' b' c' d' e1' e2' f' g' h' by blast
qed

lemma bfs_inv_seeded: "bfs_inv (fst (first_pass cs)) (set (snd (first_pass cs))) (seeded cs)"
proof -
  let ?cm0 = "fst (first_pass cs)" and ?R = "set (snd (first_pass cs))"
  have dep0: "dep ?cm0 v = Some 0" if "v \<in> ?R" for v
  proof -
    from that first_pass_roots_in_map [of cs] have "v \<in> fst ` set ?cm0" by auto
    then obtain n where n: "map_of ?cm0 v = Some n" by (rule in_keys_obtain)
    then have "depth n = 0" using first_pass_facts(7) by blast
    then show ?thesis using n by (simp add: dep_def)
  qed
  have dist0: "is_dist ?cm0 ?R v 0" if "v \<in> ?R" for v
    using that by (simp add: is_dist_def reach_root)
  have 3: "\<forall>v \<in> visited (seeded cs). \<exists>n. is_dist ?cm0 ?R v n \<and> dep (crate_map (seeded cs)) v = Some (int n)"
  proof
    fix v assume "v \<in> visited (seeded cs)"
    then have "v \<in> ?R" by (simp add: seeded_def)
    then have "is_dist ?cm0 ?R v 0 \<and> dep (crate_map (seeded cs)) v = Some (int 0)"
      using dist0 dep0 by (simp add: seeded_def)
    then show "\<exists>n. is_dist ?cm0 ?R v n \<and> dep (crate_map (seeded cs)) v = Some (int n)" by blast
  qed
  have 4: "\<forall>x \<in> set (queue (seeded cs)). fst x \<in> visited (seeded cs)
            \<and> dep (crate_map (seeded cs)) (fst x) = Some (snd x)"
    using dep0 by (auto simp: seeded_def)
  have "sorted (map snd (map (\<lambda>r. (r, 0::int)) rs))" for rs :: "string list"
    by (induction rs) auto
  then have 5: "sorted (map snd (queue (seeded cs)))"
    by (simp only: seeded_def bfs_state.select_convs)
  have 6: "\<forall>x \<in> set (queue (seeded cs)). snd x \<le> snd (hd (queue (seeded cs))) + 1"
  proof
    fix x assume x: "x \<in> set (queue (seeded cs))"
    then have "snd x = 0" by (auto simp: seeded_def)
    moreover have "hd (queue (seeded cs)) \<in> set (queue (seeded cs))" using x by (cases "queue (seeded cs)") auto
    then have "snd (hd (queue (seeded cs))) = 0" by (auto simp: seeded_def)
    ultimately show "snd x \<le> snd (hd (queue (seeded cs))) + 1" by simp
  qed
  have "fst ` set (queue (seeded cs)) = visited (seeded cs)"
    by (simp add: seeded_def image_image)
  then have 7: "\<forall>u \<in> visited (seeded cs). u \<notin> fst ` set (queue (seeded cs)) \<longrightarrow>
        (\<forall>c. (u, c) \<in> child_edges ?cm0 \<longrightarrow> c \<in> visited (seeded cs))"
    by blast
  have 8: "queue (seeded cs) \<noteq> [] \<longrightarrow>
        (\<forall>v n. reach ?cm0 ?R v n \<longrightarrow> int n \<le> snd (hd (queue (seeded cs))) \<longrightarrow> v \<in> visited (seeded cs))"
  proof (intro impI allI)
    fix v n assume ne: "queue (seeded cs) \<noteq> []" and r: "reach ?cm0 ?R v n"
      and le: "int n \<le> snd (hd (queue (seeded cs)))"
    have "hd (queue (seeded cs)) \<in> set (queue (seeded cs))" using ne by simp
    then have "snd (hd (queue (seeded cs))) = 0" by (auto simp: seeded_def)
    then have "n = 0" using le by simp
    then have "v \<in> ?R" using r by (auto elim: reach_zeroE)
    then show "v \<in> visited (seeded cs)" by (simp add: seeded_def)
  qed
  have 1: "undepth (crate_map (seeded cs)) = ?cm0"
    using first_pass_facts(5) [of cs] by (simp add: seeded_def)
  have 2: "?R \<subseteq> visited (seeded cs)" by (simp add: seeded_def)
  have 9: "\<forall>v. v \<notin> visited (seeded cs) \<longrightarrow> map_of (crate_map (seeded cs)) v = map_of ?cm0 v"
    by (simp add: seeded_def)
  show ?thesis
    unfolding bfs_inv_def using 1 2 3 4 5 6 7 8 9 by blast
qed

lemma bfs_inv_queue_keys:
  assumes "bfs_inv cm0 R s"
  shows "fst ` set (queue s) \<subseteq> set (map fst (crate_map s))"
proof
  fix k assume "k \<in> fst ` set (queue s)"
  then obtain x where "x \<in> set (queue s)" "fst x = k" by auto
  then have "dep (crate_map s) k = Some (snd x)" using assms unfolding bfs_inv_def by blast
  then have "map_of (crate_map s) k \<noteq> None" by (auto simp: dep_def)
  then show "k \<in> set (map fst (crate_map s))" using in_keys_iff [of k "crate_map s"] by simp
qed

lemma after_bfs_inv:
  "bfs_inv (fst (first_pass cs)) (set (snd (first_pass cs))) (after_bfs cs)"
proof -
  have "\<exists>s'. bfs (seeded cs) = Inr s'
          \<and> bfs_inv (fst (first_pass cs)) (set (snd (first_pass cs))) s' \<and> queue s' = []"
  proof (rule bfs_invariant [where I = "bfs_inv (fst (first_pass cs)) (set (snd (first_pass cs)))"])
    show "bfs_inv (fst (first_pass cs)) (set (snd (first_pass cs))) (seeded cs)"
      by (rule bfs_inv_seeded)
  next
    fix s :: bfs_state and k d rest node
    assume "bfs_inv (fst (first_pass cs)) (set (snd (first_pass cs))) s"
      "queue s = (k, d) # rest" "map_of (crate_map s) k = Some node"
    then show "bfs_inv (fst (first_pass cs)) (set (snd (first_pass cs)))
                 (visit_children d (child_crates node) (s\<lparr>queue := rest\<rparr>))"
      by (rule bfs_inv_step)
  next
    fix s :: bfs_state
    assume "bfs_inv (fst (first_pass cs)) (set (snd (first_pass cs))) s"
    then show "fst ` set (queue s) \<subseteq> set (map fst (crate_map s))"
      by (rule bfs_inv_queue_keys)
  qed
  then show ?thesis using bfs_seeded(1) [of cs] by auto
qed

lemma after_bfs_visited:
  "visited (after_bfs cs) = {v. \<exists>n. reach (fst (first_pass cs)) (set (snd (first_pass cs))) v n}"
proof -
  let ?cm0 = "fst (first_pass cs)" and ?R = "set (snd (first_pass cs))" and ?s = "after_bfs cs"
  note inv = after_bfs_inv [of cs, unfolded bfs_inv_def]
  have closed: "\<forall>u \<in> visited ?s. \<forall>c. (u, c) \<in> child_edges ?cm0 \<longrightarrow> c \<in> visited ?s"
    using inv bfs_seeded(2) [of cs] by simp
  have "v \<in> visited ?s" if "reach ?cm0 ?R v n" for v n
    using that
  proof (induction rule: reach.induct)
    case (reach_root r)
    then show ?case using inv by blast
  next
    case (reach_step u n c)
    then show ?case using closed by blast
  qed
  moreover have "\<exists>n. reach ?cm0 ?R v n" if "v \<in> visited ?s" for v
    using inv that unfolding is_dist_def by blast
  ultimately show ?thesis by blast
qed

lemma after_bfs_depth:
  assumes "reach (fst (first_pass cs)) (set (snd (first_pass cs))) v m"
  shows "\<exists>n. is_dist (fst (first_pass cs)) (set (snd (first_pass cs))) v n
           \<and> dep (crate_map (after_bfs cs)) v = Some (int n)"
proof -
  have "v \<in> visited (after_bfs cs)" using assms after_bfs_visited [of cs] by blast
  then show ?thesis using after_bfs_inv [of cs, unfolded bfs_inv_def] by blast
qed

lemma final_pass_visited:
  "k \<in> visited (after_bfs cs) \<Longrightarrow>
   map_of (fst (final_pass cs)) k = map_of (crate_map (after_bfs cs)) k"
  unfolding final_pass_def handle_unvisited_def by (simp add: fold_step_visited)

text \<open>The depth of every key the breadth-first pass reaches is its least number of steps
  from a root; the order in which the roots are seeded plays no part in it.\<close>

lemma final_depth_reached:
  assumes "reach (fst (first_pass cs)) (set (snd (first_pass cs))) v m"
  shows "\<exists>n. is_dist (fst (first_pass cs)) (set (snd (first_pass cs))) v n
           \<and> dep (fst (final_pass cs)) v = Some (int n)"
proof -
  have "v \<in> visited (after_bfs cs)" using assms after_bfs_visited [of cs] by blast
  then have "dep (fst (final_pass cs)) v = dep (crate_map (after_bfs cs)) v"
    using final_pass_visited by (simp add: dep_def)
  then show ?thesis using after_bfs_depth [OF assms] by simp
qed

subsection \<open>Hops along parent links\<close>

text \<open>\<open>hops cs k n\<close>: following listed parents \<open>n\<close> times from key \<open>k\<close> ends at a record
  without parents.\<close>

inductive hops :: "crate_data list \<Rightarrow> string \<Rightarrow> nat \<Rightarrow> bool" for cs :: "crate_data list" where
  hops_root: "c \<in> set cs \<Longrightarrow> parent_crates c = [] \<Longrightarrow> hops cs (pubkey c) 0"
| hops_step: "c \<in> set cs \<Longrightarrow> p \<in> set (parent_crates c) \<Longrightarrow> hops cs p n \<Longrightarrow>
              hops cs (pubkey c) (Suc n)"

inductive_cases hops_zeroE: "hops cs k 0"
inductive_cases hops_SucE: "hops cs k (Suc n)"

text \<open>The child links agree with the parent links: a record lists another as a child exactly
  when the other lists it as a parent.\<close>

definition children_consistent :: "crate_data list \<Rightarrow> bool" where
  "children_consistent cs \<longleftrightarrow>
     (\<forall>c \<in> set cs. \<forall>d \<in> set cs.
        pubkey d \<in> set (child_crates c) \<longleftrightarrow> pubkey c \<in> set (parent_crates d))"

definition stale_children_input :: "crate_data list" where
  "stale_children_input = [crate ''C'' [''B''] [], crate ''B'' [''A''] [], crate ''A'' [] []]"

lemma first_pass_node:
  assumes "k \<in> pubkey ` set cs"
  shows "\<exists>c \<in> set cs. pubkey c = k \<and> map_of (fst (first_pass cs)) k = Some (make_node c)"
  using assms
proof (induction cs rule: rev_induct)
  case Nil
  then show ?case by simp
next
  case (snoc c cs)
  have fp: "first_pass (cs @ [c]) =
      (AList.update (pubkey c) (make_node c) (fst (first_pass cs)),
       if is_root (make_node c) then set_add (pubkey c) (snd (first_pass cs)) else snd (first_pass cs))"
    unfolding first_pass_def create_nodes_append
    by (cases "create_nodes cs ([], [])") simp
  show ?case
  proof (cases "k = pubkey c")
    case True
    then show ?thesis using fp by (auto simp: update_conv')
  next
    case False
    then have "k \<in> pubkey ` set cs" using snoc.prems by auto
    from snoc.IH [OF this] show ?thesis using fp False by (auto simp: update_conv')
  qed
qed

lemma reach_in_keys:
  "reach (fst (first_pass cs)) (set (snd (first_pass cs))) v n \<Longrightarrow> v \<in> pubkey ` set cs"
proof (induction rule: reach.induct)
  case (reach_root r)
  then show ?case using first_pass_facts(4) [of cs] by auto
next
  case (reach_step u n c)
  then have "map_of (fst (first_pass cs)) c \<noteq> None" by (auto simp: child_edges_def)
  then show ?case using in_keys_iff [of c "fst (first_pass cs)"] first_pass_facts(2) [of cs] by simp
qed

lemma child_edge_parent:
  assumes cc: "children_consistent cs" and e: "(u, v) \<in> child_edges (fst (first_pass cs))"
  shows "\<exists>cv \<in> set cs. pubkey cv = v \<and> u \<in> set (parent_crates cv)"
proof -
  from e obtain n where n: "map_of (fst (first_pass cs)) u = Some n" "v \<in> set (child_crates n)"
    "map_of (fst (first_pass cs)) v \<noteq> None"
    by (auto simp: child_edges_def)
  have "u \<in> pubkey ` set cs"
    using n(1) in_keys_iff [of u "fst (first_pass cs)"] first_pass_facts(2) [of cs] by simp
  from first_pass_node [OF this] n(1) obtain cu where cu: "cu \<in> set cs" "pubkey cu = u" "n = make_node cu"
    by auto
  have "v \<in> pubkey ` set cs"
    using n(3) in_keys_iff [of v "fst (first_pass cs)"] first_pass_facts(2) [of cs] by simp
  then obtain cv where cv: "cv \<in> set cs" "pubkey cv = v" by auto
  have "pubkey cv \<in> set (child_crates cu)" using n(2) cu(3) cv(2) by (simp add: make_node_simps)
  then have "pubkey cu \<in> set (parent_crates cv)"
    using cc cu(1) cv(1) unfolding children_consistent_def by blast
  then show ?thesis using cv cu(2) by auto
qed

lemma parent_child_edge:
  assumes cc: "children_consistent cs" and cv: "cv \<in> set cs" and p: "p \<in> set (parent_crates cv)"
    and pk: "p \<in> pubkey ` set cs"
  shows "(p, pubkey cv) \<in> child_edges (fst (first_pass cs))"
proof -
  from first_pass_node [OF pk] obtain cp where cp: "cp \<in> set cs" "pubkey cp = p"
    "map_of (fst (first_pass cs)) p = Some (make_node cp)" by auto
  have "pubkey cv \<in> set (child_crates cp)"
    using cc cp(1,2) cv p unfolding children_consistent_def by blast
  moreover have "map_of (fst (first_pass cs)) (pubkey cv) \<noteq> None"
    using cv in_keys_iff [of "pubkey cv" "fst (first_pass cs)"] first_pass_facts(2) [of cs] by auto
  ultimately show ?thesis using cp(3) by (auto simp: child_edges_def make_node_simps)
qed

lemma reach_hops:
  assumes "children_consistent cs"
  shows "reach (fst (first_pass cs)) (set (snd (first_pass cs))) v n \<longleftrightarrow> hops cs v n"
proof
  assume "reach (fst (first_pass cs)) (set (snd (first_pass cs))) v n"
  then show "hops cs v n"
  proof (induction rule: reach.induct)
    case (reach_root r)
    then obtain c where "c \<in> set cs" "parent_crates c = []" "r = pubkey c"
      using first_pass_facts(4) [of cs] by auto
    then show ?case by (auto intro: hops_root)
  next
    case (reach_step u n c)
    from child_edge_parent [OF assms reach_step.hyps(2)] obtain cv where
      "cv \<in> set cs" "pubkey cv = c" "u \<in> set (parent_crates cv)" by auto
    then show ?case using reach_step.IH hops_step by blast
  qed
next
  assume "hops cs v n"
  then show "reach (fst (first_pass cs)) (set (snd (first_pass cs))) v n"
  proof (induction rule: hops.induct)
    case (hops_root c)
    then have "pubkey c \<in> set (snd (first_pass cs))" using first_pass_facts(4) [of cs] by auto
    then show ?case by (rule reach_root)
  next
    case (hops_step c p n)
    have "p \<in> pubkey ` set cs" using reach_in_keys [OF hops_step.IH] .
    from parent_child_edge [OF assms hops_step.hyps(1,2) this] hops_step.IH
    show ?case by (rule reach_step [rotated])
  qed
qed

lemma parent_edges_mem:
  "(k, p) \<in> parent_edges cs \<longleftrightarrow> (\<exists>c \<in> set cs. pubkey c = k \<and> p \<in> set (parent_crates c))"
  by (auto simp: parent_edges_def)

lemma all_keys_hop:
  assumes pp: "parents_present cs" and ac: "acyclic (parent_edges cs)"
  shows "k \<in> pubkey ` set cs \<Longrightarrow> \<exists>n. hops cs k n"
proof -
  have "finite (parent_edges cs)" by (simp add: parent_edges_def)
  then have "wf ((parent_edges cs)\<inverse>)"
    using ac by (simp add: finite_acyclic_wf_converse)
  then show "k \<in> pubkey ` set cs \<Longrightarrow> \<exists>n. hops cs k n"
  proof (induction k rule: wf_induct_rule)
    case (less k)
    then obtain c where c: "c \<in> set cs" "pubkey c = k" by auto
    show ?case
    proof (cases "parent_crates c")
      case Nil
      then show ?thesis using c hops_root [of c cs] by auto
    next
      case (Cons p ps)
      then have p: "p \<in> set (parent_crates c)" by simp
      then have "(k, p) \<in> parent_edges cs" using c by (auto simp: parent_edges_mem)
      moreover have "p \<in> pubkey ` set cs" using pp c(1) p unfolding parents_present_def by blast
      ultimately obtain n where "hops cs p n" using less.IH [of p] by auto
      then show ?thesis using hops_step [OF c(1) p] c(2) by auto
    qed
  qed
qed

text \<open>
  Claim C2, as amended. For every input in which every record's parents are present, the
  parents relation is acyclic and the child links agree with the parent links, the depth of
  every key is the least number of hops from that key to a root along parent links. The
  breadth-first pass follows \<^verbatim>\<open>child_crates\<close>, so without that agreement the depth is in general
  not the distance measured along \<^verbatim>\<open>parent_crates\<close>.
\<close>

theorem depth_is_shortest_hops:
  assumes "build_supply_chain_graph crate_list = Inr g"
    and "parents_present crate_list"
    and "acyclic (parent_edges crate_list)"
    and "children_consistent crate_list"
    and "node_of g k = Some n"
  shows "0 \<le> depth n \<and> hops crate_list k (nat (depth n))
       \<and> (\<forall>m. hops crate_list k m \<longrightarrow> nat (depth n) \<le> m)"
proof -
  note g = build_InrD [OF assms(1)]
  let ?cm0 = "fst (first_pass crate_list)" and ?R = "set (snd (first_pass crate_list))"
  have "k \<in> fst ` set (fst (final_pass crate_list))"
    using assms(5) g(1) in_keys_iff [of k "fst (final_pass crate_list)"] by (simp add: node_of_def)
  then have "k \<in> set (map fst (fst (final_pass crate_list)))" by simp
  then have "k \<in> pubkey ` set crate_list"
    unfolding final_pass_facts(1) using first_pass_facts(2) [of crate_list] by simp
  from all_keys_hop [OF assms(2,3) this] obtain m where "hops crate_list k m" by blast
  then have "reach ?cm0 ?R k m" using reach_hops [OF assms(4)] by simp
  from final_depth_reached [OF this] obtain d where
    d: "is_dist ?cm0 ?R k d" "dep (fst (final_pass crate_list)) k = Some (int d)" by blast
  have dn: "depth n = int d" using d(2) assms(5) g(1) by (simp add: dep_def node_of_def)
  have "hops crate_list k d" "\<forall>m. hops crate_list k m \<longrightarrow> d \<le> m"
    using d(1) reach_hops [OF assms(4)] unfolding is_dist_def by auto
  then show ?thesis using dn by simp
qed

lemma scenario_A_depth:
  "case build_supply_chain_graph scenario_A of Inl e \<Rightarrow> False
   | Inr g \<Rightarrow> (case node_of g ''C'' of None \<Rightarrow> False | Some n \<Rightarrow> depth n = 2)"
  by code_simp

lemma scenario_A_hyps:
  "parents_present scenario_A \<and> acyclic (parent_edges scenario_A) \<and> children_consistent scenario_A"
  by code_simp

theorem depth_is_shortest_hops_witness:
  "\<exists>g n. build_supply_chain_graph scenario_A = Inr g
     \<and> parents_present scenario_A \<and> acyclic (parent_edges scenario_A)
     \<and> children_consistent scenario_A \<and> node_of g ''C'' = Some n
     \<and> depth n = 2 \<and> hops scenario_A ''C'' 2 \<and> (\<forall>m. hops scenario_A ''C'' m \<longrightarrow> 2 \<le> m)"
proof -
  from sum_caseD [OF scenario_A_depth] obtain g where g: "build_supply_chain_graph scenario_A = Inr g"
    and "case node_of g ''C'' of None \<Rightarrow> False | Some n \<Rightarrow> depth n = 2"
    by blast
  then obtain n where n: "node_of g ''C'' = Some n" "depth n = 2"
    by (cases "node_of g ''C''") auto
  from depth_is_shortest_hops [OF g _ _ _ n(1)] scenario_A_hyps n(2)
  have "hops scenario_A ''C'' 2 \<and> (\<forall>m. hops scenario_A ''C'' m \<longrightarrow> 2 \<le> m)" by simp
  then show ?thesis using g n scenario_A_hyps by blast
qed

text \<open>Claim C2 as stated fails on the chain C, B, A given in this order with empty child
  lists: all parents are present and there is no cycle, C is two hops from the root A, and
  the build gives it depth 1.\<close>

theorem depth_shortest_hops_counterexample:
  "parents_present stale_children_input \<and> acyclic (parent_edges stale_children_input)
   \<and> result_depth (build_supply_chain_graph stale_children_input) ''C'' = Some 1
   \<and> \<not> hops stale_children_input ''C'' 1"
proof -
  have 1: "parents_present stale_children_input \<and> acyclic (parent_edges stale_children_input)
   \<and> result_depth (build_supply_chain_graph stale_children_input) ''C'' = Some 1"
    by code_simp
  have 2: "\<not> hops stale_children_input ''C'' 1"
  proof
    assume "hops stale_children_input ''C'' 1"
    then have "hops stale_children_input ''C'' (Suc 0)" by simp
    then obtain c p where "c \<in> set stale_children_input" "pubkey c = ''C''"
      "p \<in> set (parent_crates c)" "hops stale_children_input p 0"
      by (auto elim: hops_SucE)
    then have "hops stale_children_input ''B'' 0"
      by (auto simp: stale_children_input_def crate_def)
    then obtain c where c: "c \<in> set stale_children_input" "pubkey c = ''B''" "parent_crates c = []"
      by (auto elim: hops_zeroE)
    from c(1) have "c = crate ''C'' [''B''] [] \<or> c = crate ''B'' [''A''] [] \<or> c = crate ''A'' [] []"
      by (simp add: stale_children_input_def)
    then show False using c(2,3) by (auto simp: crate_def)
  qed
  show ?thesis using 1 2 by blast
qed

subsection \<open>Reordering the input\<close>

text \<open>\<open>forward_reach cs k n\<close>: \<open>n\<close> steps along listed children that are keys of the input
  lead from a record without parents to \<open>k\<close>.\<close>

inductive forward_reach :: "crate_data list \<Rightarrow> string \<Rightarrow> nat \<Rightarrow> bool"
  for cs :: "crate_data list" where
  forward_root: "c \<in> set cs \<Longrightarrow> parent_crates c = [] \<Longrightarrow> forward_reach cs (pubkey c) 0"
| forward_step: "forward_reach cs (pubkey c) n \<Longrightarrow> c \<in> set cs \<Longrightarrow> d \<in> set cs \<Longrightarrow>
                 pubkey d \<in> set (child_crates c) \<Longrightarrow> forward_reach cs (pubkey d) (Suc n)"

definition cycle_input_swapped :: "crate_data list" where
  "cycle_input_swapped = [crate ''G'' [''F''] [''F''], crate ''F'' [''G''] [''G'']]"

definition duplicate_input_swapped :: "crate_data list" where
  "duplicate_input_swapped = [crate ''X'' [''A''] [], crate ''A'' [] [''X''], crate ''X'' [] []]"

lemma first_pass_node_distinct:
  assumes "distinct (map pubkey cs)" and "c \<in> set cs"
  shows "map_of (fst (first_pass cs)) (pubkey c) = Some (make_node c)"
proof -
  have "pubkey c \<in> pubkey ` set cs" using assms(2) by simp
  from first_pass_node [OF this] obtain c' where c': "c' \<in> set cs" "pubkey c' = pubkey c"
    "map_of (fst (first_pass cs)) (pubkey c) = Some (make_node c')" by auto
  have "inj_on pubkey (set cs)" using assms(1) by (simp add: distinct_map)
  then have "c' = c" using c'(1,2) assms(2) by (auto dest: inj_onD)
  then show ?thesis using c'(3) by simp
qed

lemma first_pass_perm:
  assumes d: "distinct (map pubkey cs)" and m: "mset cs' = mset cs"
  shows "map_of (fst (first_pass cs')) k = map_of (fst (first_pass cs)) k"
    and "set (snd (first_pass cs')) = set (snd (first_pass cs))"
proof -
  have s: "set cs' = set cs" using m by (rule mset_eq_setD)
  have "mset (map pubkey cs') = mset (map pubkey cs)" using m by simp
  then have d': "distinct (map pubkey cs')" using d by (metis mset_eq_imp_distinct_iff)
  show "map_of (fst (first_pass cs')) k = map_of (fst (first_pass cs)) k"
  proof (cases "k \<in> pubkey ` set cs")
    case True
    then obtain c where c: "c \<in> set cs" "pubkey c = k" by auto
    then show ?thesis
      using first_pass_node_distinct [OF d, of c] first_pass_node_distinct [OF d', of c] s by simp
  next
    case False
    then have "map_of (fst (first_pass cs)) k = None" "map_of (fst (first_pass cs')) k = None"
      using in_keys_iff [of k "fst (first_pass cs)"] in_keys_iff [of k "fst (first_pass cs')"]
        first_pass_facts(2) [of cs] first_pass_facts(2) [of cs'] s by auto
    then show ?thesis by simp
  qed
  show "set (snd (first_pass cs')) = set (snd (first_pass cs))"
    unfolding first_pass_facts(4) using s by simp
qed

lemma reach_cong:
  assumes "\<And>k. map_of cm' k = map_of cm k"
  shows "reach cm R v n \<Longrightarrow> reach cm' R v n"
proof (induction rule: reach.induct)
  case (reach_root r)
  then show ?case by (rule reach.reach_root)
next
  case (reach_step u n c)
  have "(u, c) \<in> child_edges cm'" using reach_step.hyps(2) assms by (simp add: child_edges_def)
  then show ?case using reach_step.IH by (rule reach.reach_step [rotated])
qed

lemma forward_reach_reach:
  assumes d: "distinct (map pubkey cs)"
  shows "forward_reach cs k n \<Longrightarrow> reach (fst (first_pass cs)) (set (snd (first_pass cs))) k n"
proof (induction rule: forward_reach.induct)
  case (forward_root c)
  then have "pubkey c \<in> set (snd (first_pass cs))" using first_pass_facts(4) [of cs] by auto
  then show ?case by (rule reach_root)
next
  case (forward_step c n e)
  have "map_of (fst (first_pass cs)) (pubkey c) = Some (make_node c)"
    using first_pass_node_distinct [OF d forward_step.hyps(2)] .
  moreover have "map_of (fst (first_pass cs)) (pubkey e) \<noteq> None"
    using first_pass_node_distinct [OF d forward_step.hyps(3)] by simp
  ultimately have "(pubkey c, pubkey e) \<in> child_edges (fst (first_pass cs))"
    using forward_step.hyps(4) by (auto simp: child_edges_def make_node_simps)
  then show ?case using forward_step.IH by (rule reach_step [rotated])
qed

text \<open>The backward walk reads the root flag and the parents of a node, nothing else.\<close>

definition links :: "crate_map \<Rightarrow> string \<Rightarrow> (bool \<times> string list) option" where
  "links cm k = map_option (\<lambda>n. (is_root n, parent_crates n)) (map_of cm k)"

lemma trace_cong:
  "\<forall>k. links cm' k = links cm k \<Longrightarrow> trace_to_roots cm' pk V = trace_to_roots cm pk V"
proof (induction cm pk V rule: trace_to_roots.induct)
  case (1 cm pk V)
  note eq = "1.prems"
  show ?case
  proof (cases "pk \<in> V")
    case True
    then show ?thesis by (simp add: trace_visited)
  next
    case nv: False
    show ?thesis
    proof (cases "map_of cm pk")
      case None
      then have "map_of cm' pk = None" using eq [rule_format, of pk] by (simp add: links_def)
      then show ?thesis using None by (simp add: trace_absent)
    next
      case (Some n)
      then obtain n' where n': "map_of cm' pk = Some n'" "is_root n' = is_root n"
        "parent_crates n' = parent_crates n"
        using eq [rule_format, of pk] by (auto simp: links_def)
      show ?thesis
      proof (cases "is_root n \<or> parent_crates n = []")
        case True
        then show ?thesis using trace_root [OF nv Some] trace_root [OF nv n'(1)] n'(2,3) by auto
      next
        case False
        then have nr: "\<not> is_root n" "parent_crates n \<noteq> []" by auto
        have ih: "trace_to_roots cm' q (insert pk V) = trace_to_roots cm q (insert pk V)"
          if "q \<in> set (parent_crates n)" for q
          using "1.IH" [OF nv Some nr that eq] .
        have "candidates cm' pk V (parent_crates n) = candidates cm pk V (parent_crates n)"
          unfolding candidates_def using ih by (auto intro!: arg_cong [where f = concat])
        then show ?thesis
          using trace_step [OF nv Some nr] trace_step [OF nv n'(1)] n'(2,3) nr by simp
      qed
    qed
  qed
qed

lemma final_links:
  "links (fst (final_pass cs)) k =
     map_option (\<lambda>n. (parent_crates n = [], parent_crates n)) (map_of (fst (first_pass cs)) k)"
proof (cases "map_of (fst (final_pass cs)) k")
  case None
  then have "map_of (fst (first_pass cs)) k = None"
    using data_of_None [OF final_pass_facts(2), of cs k] by simp
  then show ?thesis using None by (simp add: links_def)
next
  case (Some n)
  from data_of_lookup [OF final_pass_facts(2) Some] obtain n0 where
    n0: "map_of (fst (first_pass cs)) k = Some n0" "crate_data.truncate n0 = crate_data.truncate n"
    by blast
  have "parent_crates n0 = parent_crates n"
    using n0(2) truncate_fields(1) [of n0] truncate_fields(1) [of n] by simp
  moreover have "is_root n \<longleftrightarrow> parent_crates n = []"
    using final_pass_facts(3) [of cs] Some by (simp add: flags_ok_def)
  ultimately show ?thesis using Some n0(1) by (simp add: links_def)
qed

lemma final_keys: "fst ` set (fst (final_pass cs)) = pubkey ` set cs"
proof -
  have "set (map fst (fst (final_pass cs))) = set (map fst (fst (first_pass cs)))"
    by (simp only: final_pass_facts(1))
  then show ?thesis using first_pass_facts(2) [of cs] by simp
qed

lemma lineage_of_cong:
  "\<forall>k. links cm' k = links cm k \<Longrightarrow> lineage_of cm' k = lineage_of cm k"
  using trace_cong [of cm' cm k "{}"] by (simp add: lineage_of_def)

text \<open>
  Claim C4, as amended. For an input whose keys are pairwise distinct, the build of any
  permutation of it has the same root set, the same root flags and the same lineage for every
  key, and the same depth for every key that is reached from a root along child links. The
  depth of a key left to the fallback pass is computed from the depths its parents hold at
  that moment and depends on the order of the input; with repeated keys the record that is
  kept depends on the order.
\<close>

theorem permutation_invariance:
  assumes "distinct (map pubkey crate_list)"
    and "mset crate_list' = mset crate_list"
    and "build_supply_chain_graph crate_list = Inr g"
    and "build_supply_chain_graph crate_list' = Inr g'"
  shows "set (root_crates g') = set (root_crates g)
       \<and> (\<forall>k. lineage g' k = lineage g k)
       \<and> (\<forall>k. map_option is_root (node_of g' k) = map_option is_root (node_of g k))
       \<and> (\<forall>k n. forward_reach crate_list k n \<longrightarrow>
             map_option depth (node_of g' k) = map_option depth (node_of g k))"
proof -
  note g = build_InrD [OF assms(3)] and g' = build_InrD [OF assms(4)]
  let ?F = "fst (final_pass crate_list)" and ?F' = "fst (final_pass crate_list')"
  have s: "set crate_list' = set crate_list" using assms(2) by (rule mset_eq_setD)
  note fp = first_pass_perm [OF assms(1,2)]
  have 1: "set (root_crates g') = set (root_crates g)"
    using g(2) g'(2) final_pass_facts(4) fp(2) by simp
  have lk: "\<forall>k. links ?F' k = links ?F k"
    using final_links fp(1) by simp
  have keys: "fst ` set ?F' = fst ` set ?F" using final_keys s by simp
  have 2: "lineage g' k = lineage g k" for k
    using map_of_build_lineages [OF final_pass_facts(5), of crate_list k]
      map_of_build_lineages [OF final_pass_facts(5), of crate_list' k]
      lineage_of_cong [OF lk, of k] keys g(4) g'(4)
    by (simp add: lineage_def)
  have 3: "map_option is_root (node_of g' k) = map_option is_root (node_of g k)" for k
  proof -
    have "map_option fst (links ?F' k) = map_option fst (links ?F k)" using lk by simp
    then show ?thesis using g(1) g'(1) by (simp add: links_def node_of_def option.map_comp comp_def)
  qed
  have 4: "map_option depth (node_of g' k) = map_option depth (node_of g k)"
    if fr: "forward_reach crate_list k n" for k n
  proof -
    let ?cm0 = "fst (first_pass crate_list)" and ?R = "set (snd (first_pass crate_list))"
    let ?cm0' = "fst (first_pass crate_list')" and ?R' = "set (snd (first_pass crate_list'))"
    have r: "reach ?cm0 ?R k n" using forward_reach_reach [OF assms(1) fr] .
    have same: "reach ?cm0' ?R' v m \<longleftrightarrow> reach ?cm0 ?R v m" for v m
      using reach_cong [of ?cm0' ?cm0 ?R v m] reach_cong [of ?cm0 ?cm0' ?R v m] fp by auto
    have r': "reach ?cm0' ?R' k n" using r same by simp
    from final_depth_reached [OF r] obtain d where
      d: "is_dist ?cm0 ?R k d" "dep ?F k = Some (int d)" by blast
    from final_depth_reached [OF r'] obtain d' where
      d': "is_dist ?cm0' ?R' k d'" "dep ?F' k = Some (int d')" by blast
    have "is_dist ?cm0 ?R k d'" using d'(1) same by (simp add: is_dist_def)
    then have "d' = d" using d(1) by (rule is_dist_unique)
    then show ?thesis using d(2) d'(2) g(1) g'(1) by (auto simp: dep_def node_of_def)
  qed
  show ?thesis using 1 2 3 4 by blast
qed

lemma scenario_A_rev_eval:
  "distinct (map pubkey scenario_A) \<and> mset (rev scenario_A) = mset scenario_A
   \<and> result_depth (build_supply_chain_graph scenario_A) ''C'' = Some 2
   \<and> result_depth (build_supply_chain_graph (rev scenario_A)) ''C'' = Some 2"
  by code_simp

lemma scenario_A_forward: "forward_reach scenario_A ''C'' 2"
proof -
  let ?a = "crate ''A'' [] [''B'']" and ?b = "crate ''B'' [''A''] [''C'']"
    and ?c = "crate ''C'' [''B''] []"
  have m: "?a \<in> set scenario_A" "?b \<in> set scenario_A" "?c \<in> set scenario_A"
    by (simp_all add: scenario_A_def)
  have "forward_reach scenario_A (pubkey ?a) 0"
    by (rule forward_root [OF m(1)]) (simp add: crate_def)
  then have "forward_reach scenario_A (pubkey ?b) (Suc 0)"
    by (rule forward_step [OF _ m(1) m(2)]) (simp add: crate_def)
  then have "forward_reach scenario_A (pubkey ?c) (Suc (Suc 0))"
    by (rule forward_step [OF _ m(2) m(3)]) (simp add: crate_def)
  then show ?thesis by (simp add: crate_def numeral_2_eq_2)
qed

theorem permutation_invariance_witness:
  "\<exists>g g'. distinct (map pubkey scenario_A) \<and> mset (rev scenario_A) = mset scenario_A
     \<and> build_supply_chain_graph scenario_A = Inr g
     \<and> build_supply_chain_graph (rev scenario_A) = Inr g'
     \<and> forward_reach scenario_A ''C'' 2
     \<and> set (root_crates g') = set (root_crates g)
     \<and> lineage g' ''C'' = lineage g ''C''
     \<and> map_option depth (node_of g' ''C'') = map_option depth (node_of g ''C'')"
proof -
  obtain g where g: "build_supply_chain_graph scenario_A = Inr g"
    using build_total by blast
  obtain g' where g': "build_supply_chain_graph (rev scenario_A) = Inr g'"
    using build_total by blast
  have h: "distinct (map pubkey scenario_A)" "mset (rev scenario_A) = mset scenario_A"
    using scenario_A_rev_eval by simp_all
  from permutation_invariance [OF h g g'] scenario_A_forward
  have "set (root_crates g') = set (root_crates g) \<and> lineage g' ''C'' = lineage g ''C''
     \<and> map_option depth (node_of g' ''C'') = map_option depth (node_of g ''C'')"
    by blast
  then show ?thesis using g g' h scenario_A_forward by blast
qed

text \<open>Claim C4 as stated fails on the two-record cycle F, G and its reversal (the depth of F
  is 1 in one order and 2 in the other), and on an input with a repeated key X (the lineage of
  X is [X, A] when the record with parent A comes last and [X] when it comes first).\<close>

theorem permutation_invariance_counterexample:
  "mset cycle_input_swapped = mset cycle_input
   \<and> result_depth (build_supply_chain_graph cycle_input) ''F'' = Some 1
   \<and> result_depth (build_supply_chain_graph cycle_input_swapped) ''F'' = Some 2
   \<and> mset duplicate_input_swapped = mset duplicate_input
   \<and> result_lineage (build_supply_chain_graph duplicate_input) ''X'' = Some [''X'', ''A'']
   \<and> result_lineage (build_supply_chain_graph duplicate_input_swapped) ''X'' = Some [''X'']"
proof -
  have 1: "mset cycle_input_swapped = mset cycle_input"
    by (simp add: cycle_input_swapped_def cycle_input_def add_mset_commute)
  have 2: "mset duplicate_input_swapped = mset duplicate_input"
    by (simp add: duplicate_input_swapped_def duplicate_input_def add_mset_commute)
  have 3: "result_depth (build_supply_chain_graph cycle_input) ''F'' = Some 1
   \<and> result_depth (build_supply_chain_graph cycle_input_swapped) ''F'' = Some 2
   \<and> result_lineage (build_supply_chain_graph duplicate_input) ''X'' = Some [''X'', ''A'']
   \<and> result_lineage (build_supply_chain_graph duplicate_input_swapped) ''X'' = Some [''X'']"
    by code_simp
  show ?thesis using 1 2 3 by blast
qed

definition cycle_in_snapshot :: "crate_data list" where
  "cycle_in_snapshot = [crate ''A'' [] [], crate ''F'' [''G''] [''G''], crate ''G'' [''F''] [''F'']]"

lemma reach_forward:
  "reach (fst (first_pass cs)) (set (snd (first_pass cs))) v n \<Longrightarrow> forward_reach cs v n"
proof (induction rule: reach.induct)
  case (reach_root r)
  then obtain c where "c \<in> set cs" "parent_crates c = []" "r = pubkey c"
    using first_pass_facts(4) [of cs] by auto
  then show ?case by (auto intro: forward_root)
next
  case (reach_step u n c)
  from reach_step.hyps(2) obtain nu where nu: "map_of (fst (first_pass cs)) u = Some nu"
    "c \<in> set (child_crates nu)" "map_of (fst (first_pass cs)) c \<noteq> None"
    by (auto simp: child_edges_def)
  have "u \<in> pubkey ` set cs"
    using nu(1) in_keys_iff [of u "fst (first_pass cs)"] first_pass_facts(2) [of cs] by simp
  from first_pass_node [OF this] nu(1) obtain cu where cu: "cu \<in> set cs" "pubkey cu = u"
    "nu = make_node cu" by auto
  have "c \<in> pubkey ` set cs"
    using nu(3) in_keys_iff [of c "fst (first_pass cs)"] first_pass_facts(2) [of cs] by simp
  then obtain cc where cc: "cc \<in> set cs" "pubkey cc = c" by auto
  have fr: "forward_reach cs (pubkey cu) n" using reach_step.IH cu(2) by simp
  have ch: "pubkey cc \<in> set (child_crates cu)" using nu(2) cu(3) cc(2) by (simp add: make_node_simps)
  have "forward_reach cs (pubkey cc) (Suc n)"
    by (rule forward_step [OF fr cu(1) cc(1) ch])
  then show ?case using cc(2) by simp
qed

lemma unreached_untouched:
  assumes "\<forall>n. \<not> forward_reach cs k n"
  shows "k \<notin> visited (after_bfs cs)"
    and "map_of (crate_map (after_bfs cs)) k = map_of (fst (first_pass cs)) k"
proof -
  show nv: "k \<notin> visited (after_bfs cs)"
    using assms reach_forward [of cs k] after_bfs_visited [of cs] by auto
  show "map_of (crate_map (after_bfs cs)) k = map_of (fst (first_pass cs)) k"
    using after_bfs_inv [of cs, unfolded bfs_inv_def] nv by blast
qed

lemma step_single_parent:
  assumes "map_of (fst acc) pk = Some node" and "pk \<notin> V" and "parent_crates node = [p]"
    and "map_of (fst acc) p = Some pn" and "0 \<le> depth pn"
  shows "map_of (fst (handle_unvisited_step V pk acc)) pk = Some (node\<lparr>depth := depth pn + 1\<rparr>)"
proof -
  obtain cm rs where acc: "acc = (cm, rs)" by (cases acc)
  have "parent_depths cm [p] = [depth pn]" using assms(4) acc by (simp add: parent_depths_def)
  then show ?thesis
    using assms acc
    by (simp add: handle_unvisited_step_def min_default_def map_of_set_depth)
qed

lemma two_cycle_fold:
  assumes f: "map_of (fst acc) kf = Some mf" and h: "map_of (fst acc) kh = Some mh"
    and pf: "parent_crates mf = [kh]" and ph: "parent_crates mh = [kf]"
    and d: "depth mh = 0" and ne: "kf \<noteq> kh"
    and nv: "kf \<notin> V" "kh \<notin> V"
    and dist: "distinct (pre @ kf # mid @ kh # post)"
  shows "map_of (fst (fold (handle_unvisited_step V) (pre @ kf # mid @ kh # post) acc)) kf
           = Some (mf\<lparr>depth := 1\<rparr>)"
    and "map_of (fst (fold (handle_unvisited_step V) (pre @ kf # mid @ kh # post) acc)) kh
           = Some (mh\<lparr>depth := 2\<rparr>)"
proof -
  let ?st = "handle_unvisited_step V"
  define a1 where "a1 = fold ?st pre acc"
  define a2 where "a2 = ?st kf a1"
  define a3 where "a3 = fold ?st mid a2"
  define a4 where "a4 = ?st kh a3"
  define a5 where "a5 = fold ?st post a4"
  have all: "fold ?st (pre @ kf # mid @ kh # post) acc = a5"
    by (simp add: a1_def a2_def a3_def a4_def a5_def)
  have nin: "kf \<notin> set pre" "kh \<notin> set pre" "kf \<notin> set mid" "kh \<notin> set mid"
    "kf \<notin> set post" "kh \<notin> set post"
    using dist by auto
  have 1: "map_of (fst a1) kf = Some mf" "map_of (fst a1) kh = Some mh"
    unfolding a1_def using f h nin by (simp_all add: fold_step_other)
  have 2: "map_of (fst a2) kf = Some (mf\<lparr>depth := 1\<rparr>)"
    unfolding a2_def using step_single_parent [OF 1(1) nv(1) pf 1(2)] d by simp
  have h2: "map_of (fst a2) kh = Some mh"
    unfolding a2_def using 1(2) ne by (simp add: handle_unvisited_step_other)
  have 3: "map_of (fst a3) kf = Some (mf\<lparr>depth := 1\<rparr>)" "map_of (fst a3) kh = Some mh"
    unfolding a3_def using 2 h2 nin by (simp_all add: fold_step_other)
  have 4: "map_of (fst a4) kh = Some (mh\<lparr>depth := 2\<rparr>)"
    unfolding a4_def using step_single_parent [OF 3(2) nv(2) ph 3(1)] by simp
  have f4: "map_of (fst a4) kf = Some (mf\<lparr>depth := 1\<rparr>)"
    unfolding a4_def using 3(1) ne by (simp add: handle_unvisited_step_other)
  show "map_of (fst (fold ?st (pre @ kf # mid @ kh # post) acc)) kf = Some (mf\<lparr>depth := 1\<rparr>)"
    unfolding all a5_def using f4 nin by (simp add: fold_step_other)
  show "map_of (fst (fold ?st (pre @ kf # mid @ kh # post) acc)) kh = Some (mh\<lparr>depth := 2\<rparr>)"
    unfolding all a5_def using 4 nin by (simp add: fold_step_other)
qed

lemma two_cycle_lineage_in:
  assumes "map_of cm kf = Some nf" "map_of cm kh = Some nh" "kf \<noteq> kh"
    "parent_crates nf = [kh]" "parent_crates nh = [kf]" "\<not> is_root nf" "\<not> is_root nh"
  shows "lineage_of cm kf = [kf, kh]"
proof -
  have "trace_to_roots cm kh {kf} = [[kh]]"
    using trace_step [of kh "{kf}" cm nh] assms
    by (simp add: candidates_def trace_visited)
  then have "trace_to_roots cm kf {} = [[kf, kh]]"
    using trace_step [of kf "{}" cm nf] assms by (simp add: candidates_def)
  then show ?thesis by (simp add: lineage_of_def min_by_len_def)
qed

lemma two_cycle_depths:
  assumes nf: "map_of (fst (final_pass cs)) kf = Some nf"
    and nh: "map_of (fst (final_pass cs)) kh = Some nh"
    and pf: "parent_crates nf = [kh]" and ph: "parent_crates nh = [kf]" and ne: "kf \<noteq> kh"
    and uf: "\<forall>n. \<not> forward_reach cs kf n" and uh: "\<forall>n. \<not> forward_reach cs kh n"
    and ord: "map fst (fst (final_pass cs)) = pre @ kf # mid @ kh # post"
  shows "depth nf = 1 \<and> depth nh = 2"
proof -
  let ?cm0 = "fst (first_pass cs)" and ?cm1 = "crate_map (after_bfs cs)"
  let ?V = "visited (after_bfs cs)"
  from data_of_lookup [OF final_pass_facts(2) nf] obtain mf where
    mf: "map_of ?cm0 kf = Some mf" "crate_data.truncate mf = crate_data.truncate nf" by blast
  from data_of_lookup [OF final_pass_facts(2) nh] obtain mh where
    mh: "map_of ?cm0 kh = Some mh" "crate_data.truncate mh = crate_data.truncate nh" by blast
  have pmf: "parent_crates mf = [kh]"
    using mf(2) pf truncate_fields(1) [of mf] truncate_fields(1) [of nf] by simp
  have pmh: "parent_crates mh = [kf]"
    using mh(2) ph truncate_fields(1) [of mh] truncate_fields(1) [of nh] by simp
  have dmh: "depth mh = 0" using first_pass_facts(7) mh(1) by blast
  have 1: "map_of ?cm1 kf = Some mf" "map_of ?cm1 kh = Some mh"
    using unreached_untouched(2) [OF uf] unreached_untouched(2) [OF uh] mf(1) mh(1) by simp_all
  have nv: "kf \<notin> ?V" "kh \<notin> ?V"
    using unreached_untouched(1) [OF uf] unreached_untouched(1) [OF uh] by simp_all
  have keys: "map fst ?cm1 = pre @ kf # mid @ kh # post"
  proof -
    have "map fst ?cm1 = map fst ?cm0"
      using after_bfs_undepth [of cs] keys_undepth [of ?cm1] by simp
    then show ?thesis using ord final_pass_facts(1) [of cs] by simp
  qed
  have dist: "distinct (pre @ kf # mid @ kh # post)"
    using final_pass_facts(5) [of cs] ord by simp
  have fin: "fst (final_pass cs)
      = fst (fold (handle_unvisited_step ?V) (pre @ kf # mid @ kh # post) (?cm1, snd (first_pass cs)))"
    unfolding final_pass_def handle_unvisited_def using keys by simp
  have "map_of (fst (final_pass cs)) kf = Some (mf\<lparr>depth := 1\<rparr>)"
    unfolding fin
    by (rule two_cycle_fold(1) [OF _ _ pmf pmh dmh ne nv dist]) (simp_all add: 1)
  moreover have "map_of (fst (final_pass cs)) kh = Some (mh\<lparr>depth := 2\<rparr>)"
    unfolding fin
    by (rule two_cycle_fold(2) [OF _ _ pmf pmh dmh ne nv dist]) (simp_all add: 1)
  ultimately show ?thesis using nf nh by auto
qed

text \<open>
  Claim C6, as amended. For two records of a snapshot that list each other as their only
  parent and that no walk along child links reaches from a record without parents, the build
  gives depth 1 to the one whose key comes first in the node map and depth 2 to the other,
  flags neither as a root, and gives each a lineage of two keys: itself, then the other.
\<close>

theorem two_cycle_depths_and_lineages:
  assumes "build_supply_chain_graph crate_list = Inr g"
    and "node_of g kf = Some nf" and "node_of g kh = Some nh"
    and "parent_crates nf = [kh]" and "parent_crates nh = [kf]" and "kf \<noteq> kh"
    and "\<forall>n. \<not> forward_reach crate_list kf n" and "\<forall>n. \<not> forward_reach crate_list kh n"
    and "map fst (crates g) = pre @ kf # mid @ kh # post"
  shows "depth nf = 1 \<and> depth nh = 2 \<and> \<not> is_root nf \<and> \<not> is_root nh
       \<and> lineage g kf = Some [kf, kh] \<and> lineage g kh = Some [kh, kf]"
proof -
  note g = build_InrD [OF assms(1)]
  let ?cm = "fst (final_pass crate_list)"
  have nf: "map_of ?cm kf = Some nf" and nh: "map_of ?cm kh = Some nh"
    using assms(2,3) g(1) by (simp_all add: node_of_def)
  have ord: "map fst ?cm = pre @ kf # mid @ kh # post" using assms(9) g(1) by simp
  have dp: "depth nf = 1 \<and> depth nh = 2"
    by (rule two_cycle_depths [OF nf nh assms(4,5,6,7,8) ord])
  have nr: "\<not> is_root nf" "\<not> is_root nh"
    using final_pass_facts(3) [of crate_list] nf nh assms(4,5) by (simp_all add: flags_ok_def)
  have kin: "kf \<in> fst ` set ?cm" "kh \<in> fst ` set ?cm"
    using nf nh by (simp_all add: in_keys_iff)
  have lf: "lineage g kf = Some (lineage_of ?cm kf)" and lh: "lineage g kh = Some (lineage_of ?cm kh)"
    using map_of_build_lineages [OF final_pass_facts(5), of crate_list kf]
      map_of_build_lineages [OF final_pass_facts(5), of crate_list kh] kin g(4)
    by (simp_all add: lineage_def)
  have "lineage_of ?cm kf = [kf, kh]"
    by (rule two_cycle_lineage_in [OF nf nh assms(6) assms(4,5) nr])
  moreover have "lineage_of ?cm kh = [kh, kf]"
    by (rule two_cycle_lineage_in [OF nh nf assms(6) [symmetric] assms(5,4) nr(2,1)])
  ultimately show ?thesis using dp nr lf lh by simp
qed

lemma cycle_in_snapshot_reach: "forward_reach cycle_in_snapshot k n \<Longrightarrow> k = ''A''"
proof (induction rule: forward_reach.induct)
  case (forward_root c)
  then show ?case by (auto simp: cycle_in_snapshot_def crate_def)
next
  case (forward_step c n d)
  then have "c = crate ''A'' [] []" by (auto simp: cycle_in_snapshot_def crate_def)
  then show ?case using forward_step.hyps(4) by (simp add: crate_def)
qed

lemma cycle_in_snapshot_eval:
  "case build_supply_chain_graph cycle_in_snapshot of Inl e \<Rightarrow> False
   | Inr g \<Rightarrow> map fst (crates g) = [''A''] @ ''F'' # [] @ ''G'' # []
      \<and> (case node_of g ''F'' of None \<Rightarrow> False | Some nf \<Rightarrow> parent_crates nf = [''G''])
      \<and> (case node_of g ''G'' of None \<Rightarrow> False | Some nh \<Rightarrow> parent_crates nh = [''F''])"
  by code_simp

theorem two_cycle_depths_and_lineages_witness:
  "\<exists>g nf nh. build_supply_chain_graph cycle_in_snapshot = Inr g
     \<and> node_of g ''F'' = Some nf \<and> node_of g ''G'' = Some nh
     \<and> parent_crates nf = [''G''] \<and> parent_crates nh = [''F''] \<and> ''F'' \<noteq> ''G''
     \<and> (\<forall>n. \<not> forward_reach cycle_in_snapshot ''F'' n)
     \<and> (\<forall>n. \<not> forward_reach cycle_in_snapshot ''G'' n)
     \<and> map fst (crates g) = [''A''] @ ''F'' # [] @ ''G'' # []
     \<and> depth nf = 1 \<and> depth nh = 2 \<and> \<not> is_root nf \<and> \<not> is_root nh
     \<and> lineage g ''F'' = Some [''F'', ''G''] \<and> lineage g ''G'' = Some [''G'', ''F'']"
proof -
  from sum_caseD [OF cycle_in_snapshot_eval] obtain g where
    g: "build_supply_chain_graph cycle_in_snapshot = Inr g"
    and o: "map fst (crates g) = [''A''] @ ''F'' # [] @ ''G'' # []"
    and cf: "case node_of g ''F'' of None \<Rightarrow> False | Some nf \<Rightarrow> parent_crates nf = [''G'']"
    and ch: "case node_of g ''G'' of None \<Rightarrow> False | Some nh \<Rightarrow> parent_crates nh = [''F'']"
    by blast
  from cf obtain nf where nf: "node_of g ''F'' = Some nf" "parent_crates nf = [''G'']"
    by (cases "node_of g ''F''") auto
  from ch obtain nh where nh: "node_of g ''G'' = Some nh" "parent_crates nh = [''F'']"
    by (cases "node_of g ''G''") auto
  have uf: "\<forall>n. \<not> forward_reach cycle_in_snapshot ''F'' n"
    using cycle_in_snapshot_reach [of "''F''"] by auto
  have uh: "\<forall>n. \<not> forward_reach cycle_in_snapshot ''G'' n"
    using cycle_in_snapshot_reach [of "''G''"] by auto
  have ne: "''F'' \<noteq> ''G''" by simp
  from two_cycle_depths_and_lineages [OF g nf(1) nh(1) nf(2) nh(2) ne uf uh o]
  show ?thesis using g nf nh uf uh o by blast
qed

subsection \<open>The two embeddings of the lineage walk\<close>

lemma collect_results_Inr: "collect_results (map Inr ys) = Inr ys"
  by (induction ys) simp_all

lemma collect_results_map:
  "\<forall>x \<in> set xs. f x = Inr (g x) \<Longrightarrow> collect_results (map f xs) = Inr (map g xs)"
  by (induction xs) simp_all

lemma collect_results_InlD: "collect_results rs = Inl e \<Longrightarrow> Inl e \<in> set rs"
  by (induction rs arbitrary: e) (auto split: sum.splits)

lemma collect_results_InrD: "collect_results rs = Inr ys \<Longrightarrow> rs = map Inr ys"
  by (induction rs arbitrary: ys) (auto split: sum.splits)

lemma trace_frames_cases:
  "trace_to_roots_frames frames cm pk vpath = Inr (trace_to_roots cm pk vpath)
   \<or> trace_to_roots_frames frames cm pk vpath = Inl RecursionError"
proof (induction frames arbitrary: pk vpath)
  case 0
  show ?case by simp
next
  case (Suc frames)
  show ?case
  proof (cases "pk \<in> vpath")
    case True
    then show ?thesis by (subst trace_to_roots.simps) simp
  next
    case nv: False
    show ?thesis
    proof (cases "map_of cm pk")
      case None
      then show ?thesis using nv by (subst trace_to_roots.simps) simp
    next
      case (Some node)
      show ?thesis
      proof (cases "is_root node \<or> parent_crates node = []")
        case True
        then show ?thesis using nv Some by (subst trace_to_roots.simps) auto
      next
        case False
        let ?f = "\<lambda>parent_pubkey. trace_to_roots_frames frames cm parent_pubkey (insert pk vpath)"
        let ?g = "\<lambda>parent_pubkey. trace_to_roots cm parent_pubkey (insert pk vpath)"
        show ?thesis
        proof (cases "\<forall>p \<in> set (parent_crates node). ?f p = Inr (?g p)")
          case True
          then have cr: "collect_results (map ?f (parent_crates node))
                         = Inr (map ?g (parent_crates node))"
            by (rule collect_results_map)
          have "trace_to_roots_frames (Suc frames) cm pk vpath = Inr (trace_to_roots cm pk vpath)"
            using nv Some False cr
            by (subst trace_to_roots.simps) (simp add: Let_def comp_def)
          then show ?thesis by simp
        next
          case bad: False
          then obtain p where p: "p \<in> set (parent_crates node)" "?f p \<noteq> Inr (?g p)" by blast
          then have "?f p = Inl RecursionError" using Suc.IH [of p "insert pk vpath"] by simp
          then have mem: "Inl RecursionError \<in> set (map ?f (parent_crates node))"
            using p(1) by force
          have "\<exists>e. collect_results (map ?f (parent_crates node)) = Inl e"
          proof (cases "collect_results (map ?f (parent_crates node))")
            case (Inl e)
            then show ?thesis by simp
          next
            case (Inr ys)
            from collect_results_InrD [OF this] mem show ?thesis by auto
          qed
          then obtain e where e: "collect_results (map ?f (parent_crates node)) = Inl e" by blast
          from collect_results_InlD [OF e] obtain q where "q \<in> set (parent_crates node)"
            "?f q = Inl e" by auto
          then have "e = RecursionError" using Suc.IH [of q "insert pk vpath"] by auto
          then have "trace_to_roots_frames (Suc frames) cm pk vpath = Inl RecursionError"
            using nv Some False e by simp
          then show ?thesis by simp
        qed
      qed
    qed
  qed
qed

lemma trace_frames_enough:
  "card (fst ` set cm - vpath) < frames \<Longrightarrow>
   trace_to_roots_frames frames cm pk vpath = Inr (trace_to_roots cm pk vpath)"
proof (induction frames arbitrary: pk vpath)
  case 0
  then show ?case by simp
next
  case (Suc frames)
  show ?case
  proof (cases "pk \<in> vpath")
    case True
    then show ?thesis by (subst trace_to_roots.simps) simp
  next
    case nv: False
    show ?thesis
    proof (cases "map_of cm pk")
      case None
      then show ?thesis using nv by (subst trace_to_roots.simps) simp
    next
      case (Some node)
      show ?thesis
      proof (cases "is_root node \<or> parent_crates node = []")
        case True
        then show ?thesis using nv Some by (subst trace_to_roots.simps) auto
      next
        case False
        let ?K = "fst ` set cm"
        let ?f = "\<lambda>parent_pubkey. trace_to_roots_frames frames cm parent_pubkey (insert pk vpath)"
        let ?g = "\<lambda>parent_pubkey. trace_to_roots cm parent_pubkey (insert pk vpath)"
        have "pk \<in> ?K" using Some in_keys_iff [of pk cm] by simp
        then have "pk \<in> ?K - vpath" using nv by simp
        moreover have "finite (?K - vpath)" by simp
        moreover have "?K - insert pk vpath = (?K - vpath) - {pk}" by blast
        ultimately have "card (?K - insert pk vpath) < card (?K - vpath)"
          using card.remove [of "?K - vpath" pk] by simp
        then have "card (?K - insert pk vpath) < frames" using Suc.prems by simp
        then have "\<forall>p \<in> set (parent_crates node). ?f p = Inr (?g p)" using Suc.IH by blast
        then have cr: "collect_results (map ?f (parent_crates node))
                       = Inr (map ?g (parent_crates node))"
          by (rule collect_results_map)
        show ?thesis
          using nv Some False cr
          by (subst trace_to_roots.simps) (simp add: Let_def comp_def)
      qed
    qed
  qed
qed

lemma lineage_frames_cases:
  "lineage_of_frames frames cm pk = Inr (lineage_of cm pk)
   \<or> lineage_of_frames frames cm pk = Inl RecursionError"
  using trace_frames_cases [of frames cm pk "{}"]
  by (auto simp: lineage_of_frames_def lineage_of_def split: list.splits)

lemma lineage_frames_enough:
  "card (fst ` set cm) < frames \<Longrightarrow> lineage_of_frames frames cm pk = Inr (lineage_of cm pk)"
  using trace_frames_enough [of cm "{}" frames pk]
  by (auto simp: lineage_of_frames_def lineage_of_def split: list.splits)

lemma fold_frames_Inl:
  "fold (\<lambda>pk acc. case acc of Inl e \<Rightarrow> Inl e
        | Inr lin \<Rightarrow> (case lineage_of_frames frames cm pk of Inl e \<Rightarrow> Inl e
                      | Inr l \<Rightarrow> Inr (AList.update pk l lin))) ks (Inl e) = Inl e"
  by (induction ks) simp_all

lemma fold_frames_all:
  assumes "\<forall>k \<in> set ks. lineage_of_frames frames cm k = Inr (lineage_of cm k)"
  shows "fold (\<lambda>pk acc. case acc of Inl e \<Rightarrow> Inl e
        | Inr lin \<Rightarrow> (case lineage_of_frames frames cm pk of Inl e \<Rightarrow> Inl e
                      | Inr l \<Rightarrow> Inr (AList.update pk l lin))) ks (Inr lin)
       = Inr (fold (\<lambda>pk lin. AList.update pk (lineage_of cm pk) lin) ks lin)"
  using assms by (induction ks arbitrary: lin) simp_all

lemma fold_frames_some:
  assumes "k \<in> set ks" and "lineage_of_frames frames cm k = Inl RecursionError"
  shows "fold (\<lambda>pk acc. case acc of Inl e \<Rightarrow> Inl e
        | Inr lin \<Rightarrow> (case lineage_of_frames frames cm pk of Inl e \<Rightarrow> Inl e
                      | Inr l \<Rightarrow> Inr (AList.update pk l lin))) ks (Inr lin)
       = Inl RecursionError"
  using assms
proof (induction ks arbitrary: lin)
  case Nil
  then show ?case by simp
next
  case (Cons a ks)
  show ?case
  proof (cases "lineage_of_frames frames cm a")
    case (Inl e)
    then have "e = RecursionError" using lineage_frames_cases [of frames cm a] by simp
    then show ?thesis using Inl by (simp add: fold_frames_Inl)
  next
    case (Inr l)
    then have "k \<in> set ks" using Cons.prems by auto
    then show ?thesis using Inr Cons.IH Cons.prems(2) by simp
  qed
qed

lemma build_lineages_frames_cases:
  "build_lineages_frames frames cm = Inr (build_lineages cm)
   \<or> build_lineages_frames frames cm = Inl RecursionError"
proof (cases "\<forall>k \<in> set (map fst cm). lineage_of_frames frames cm k = Inr (lineage_of cm k)")
  case True
  then show ?thesis
    unfolding build_lineages_frames_def build_lineages_def by (simp add: fold_frames_all)
next
  case False
  then obtain k where k: "k \<in> set (map fst cm)" "lineage_of_frames frames cm k = Inl RecursionError"
    using lineage_frames_cases [of frames cm] by blast
  then show ?thesis
    unfolding build_lineages_frames_def by (simp add: fold_frames_some)
qed

lemma build_lineages_frames_enough:
  assumes "card (fst ` set cm) < frames"
  shows "build_lineages_frames frames cm = Inr (build_lineages cm)"
proof -
  have "\<forall>k \<in> set (map fst cm). lineage_of_frames frames cm k = Inr (lineage_of cm k)"
    using lineage_frames_enough [OF assms] by blast
  then show ?thesis
    unfolding build_lineages_frames_def build_lineages_def by (rule fold_frames_all)
qed

lemma build_lineages_frames_overflow:
  assumes "k \<in> fst ` set cm" and "lineage_of_frames frames cm k = Inl RecursionError"
  shows "build_lineages_frames frames cm = Inl RecursionError"
  unfolding build_lineages_frames_def using assms by (simp add: fold_frames_some)

lemma build_frames_eq:
  "build_supply_chain_graph_frames frames cs =
     (case build_lineages_frames frames (fst (final_pass cs)) of
        Inl e \<Rightarrow> Inl e
      | Inr lin \<Rightarrow>
          Inr \<lparr>total_crates = int (length (fst (final_pass cs))),
               root_crates = snd (final_pass cs),
               crates = fst (final_pass cs),
               lineages = lin\<rparr>)"
proof -
  obtain cm0 roots0 where fp: "create_nodes cs ([], []) = (cm0, roots0)"
    by (cases "create_nodes cs ([], [])")
  then have fp': "fst (first_pass cs) = cm0" "snd (first_pass cs) = roots0"
    by (simp_all add: first_pass_def)
  obtain cm roots where hp: "final_pass cs = (cm, roots)"
    by (cases "final_pass cs")
  have fin: "fst (final_pass cs) = cm" "snd (final_pass cs) = roots" using hp by simp_all
  have hu: "handle_unvisited (visited (after_bfs cs)) (crate_map (after_bfs cs), roots0) = (cm, roots)"
    using hp fp' by (simp add: final_pass_def)
  have sr: "seed_roots roots0 \<lparr>crate_map = cm0, visited = {}, queue = []\<rparr> = Inr (seeded cs)"
    using seed_roots_first_pass [of cs] fp' by simp
  show ?thesis
    unfolding build_supply_chain_graph_frames_def fp fin
    using sr bfs_seeded(1) [of cs] hu
    by (simp split: sum.splits)
qed

lemma build_frames_cases:
  "build_supply_chain_graph_frames frames cs = build_supply_chain_graph cs
   \<or> build_supply_chain_graph_frames frames cs = Inl RecursionError"
  using build_lineages_frames_cases [of frames "fst (final_pass cs)"]
  unfolding build_frames_eq build_eq by auto

lemma final_keys_input: "fst ` set (fst (final_pass cs)) = pubkey ` set cs"
proof -
  have "set (map fst (fst (final_pass cs))) = set (map fst (fst (first_pass cs)))"
    using final_pass_facts(1) [of cs] by simp
  then show ?thesis using first_pass_facts(2) [of cs] by simp
qed

text \<open>A chain of \<open>n\<close> records: the first has no parent, every other record has the one before
  it as its only parent, and the child links agree. The keys are pairwise different strings.\<close>

definition chain_key :: "nat \<Rightarrow> string" where
  "chain_key i = replicate (Suc i) (CHR ''k'')"

definition chain_record :: "nat \<Rightarrow> nat \<Rightarrow> crate_data" where
  "chain_record n i =
     crate (chain_key i) (if i = 0 then [] else [chain_key (i - 1)])
       (if Suc i < n then [chain_key (Suc i)] else [])"

definition chain_input :: "nat \<Rightarrow> crate_data list" where
  "chain_input n = map (chain_record n) [0..<n]"

lemma chain_key_inj [simp]: "chain_key i = chain_key j \<longleftrightarrow> i = j"
  by (simp add: chain_key_def)

lemma chain_record_fields [simp]:
  "pubkey (chain_record n i) = chain_key i"
  "parent_crates (chain_record n i) = (if i = 0 then [] else [chain_key (i - 1)])"
  by (simp_all add: chain_record_def crate_def)

lemma chain_input_keys: "map pubkey (chain_input n) = map chain_key [0..<n]"
  by (simp add: chain_input_def comp_def)

lemma chain_input_distinct: "distinct (map pubkey (chain_input n))"
  unfolding chain_input_keys by (simp add: distinct_map inj_on_def)

lemma chain_final_node:
  assumes "i < n"
  shows "\<exists>nd. map_of (fst (final_pass (chain_input n))) (chain_key i) = Some nd
           \<and> (is_root nd \<longleftrightarrow> i = 0)
           \<and> parent_crates nd = (if i = 0 then [] else [chain_key (i - 1)])"
proof -
  let ?cs = "chain_input n"
  have mem: "chain_record n i \<in> set ?cs" using assms by (simp add: chain_input_def)
  have fp: "map_of (fst (first_pass ?cs)) (chain_key i) = Some (make_node (chain_record n i))"
    using first_pass_node_distinct [OF chain_input_distinct mem] by simp
  from data_of_lookup [OF final_pass_facts(2) [symmetric] fp] obtain nd where
    nd: "map_of (fst (final_pass ?cs)) (chain_key i) = Some nd"
      "crate_data.truncate nd = crate_data.truncate (make_node (chain_record n i))" by blast
  have "parent_crates (crate_data.truncate nd) = parent_crates (chain_record n i)"
    using nd(2) by (simp add: make_node_simps)
  then have p: "parent_crates nd = (if i = 0 then [] else [chain_key (i - 1)])" by simp
  have "is_root nd \<longleftrightarrow> parent_crates nd = []"
    using final_pass_facts(3) [of ?cs] nd(1) by (simp add: flags_ok_def)
  then have "is_root nd \<longleftrightarrow> i = 0" using p by simp
  then show ?thesis using nd(1) p by blast
qed

lemma chain_trace_overflow:
  assumes nodes: "\<And>i. i < n \<Longrightarrow> \<exists>nd. map_of cm (chain_key i) = Some nd \<and> (is_root nd \<longleftrightarrow> i = 0)
                     \<and> parent_crates nd = (if i = 0 then [] else [chain_key (i - 1)])"
  shows "frames \<le> i \<Longrightarrow> i < n \<Longrightarrow> \<forall>j \<le> i. chain_key j \<notin> vpath \<Longrightarrow>
         trace_to_roots_frames frames cm (chain_key i) vpath = Inl RecursionError"
proof (induction frames arbitrary: i vpath)
  case 0
  show ?case by simp
next
  case (Suc frames)
  from Suc.prems(1) have ipos: "i \<noteq> 0" by simp
  from nodes [OF Suc.prems(2)] ipos obtain nd where
    nd: "map_of cm (chain_key i) = Some nd" "\<not> is_root nd" "parent_crates nd = [chain_key (i - 1)]"
    by auto
  have nv: "chain_key i \<notin> vpath" using Suc.prems(3) by simp
  have "\<forall>j \<le> i - 1. chain_key j \<notin> insert (chain_key i) vpath"
    using Suc.prems(3) ipos by auto
  moreover have "frames \<le> i - 1" "i - 1 < n" using Suc.prems(1,2) by simp_all
  ultimately have "trace_to_roots_frames frames cm (chain_key (i - 1)) (insert (chain_key i) vpath)
                   = Inl RecursionError"
    using Suc.IH by blast
  then show ?case using nd nv by simp
qed

lemma chain_overflow:
  assumes "frames < n"
  shows "build_supply_chain_graph_frames frames (chain_input n) = Inl RecursionError"
proof -
  let ?cm = "fst (final_pass (chain_input n))"
  have n: "n - 1 < n" "frames \<le> n - 1" using assms by simp_all
  have "trace_to_roots_frames frames ?cm (chain_key (n - 1)) {} = Inl RecursionError"
    by (rule chain_trace_overflow [OF chain_final_node n(2) n(1)]) simp_all
  then have l: "lineage_of_frames frames ?cm (chain_key (n - 1)) = Inl RecursionError"
    by (simp add: lineage_of_frames_def)
  have "chain_key (n - 1) \<in> set (map chain_key [0..<n])" using n(1) by simp
  then have "chain_key (n - 1) \<in> pubkey ` set (chain_input n)"
    using chain_input_keys [of n] by (metis set_map)
  then have "chain_key (n - 1) \<in> fst ` set ?cm" by (simp add: final_keys_input)
  from build_lineages_frames_overflow [OF this l] show ?thesis
    unfolding build_frames_eq by simp
qed

text \<open>On scenario A the lineage of C needs three nested activations: two are too few, three
  give the graph of the embedding without a limit.\<close>

lemma scenario_A_frames:
  "build_supply_chain_graph_frames (Suc (Suc 0)) scenario_A = Inl RecursionError"
  "build_supply_chain_graph_frames (Suc (Suc (Suc 0))) scenario_A = build_supply_chain_graph scenario_A"
  by code_simp+

text \<open>
  Claim C7, as amended. With \<open>frames\<close> nested calls of \<^verbatim>\<open>trace_to_roots\<close> left to the
  interpreter, the builder returns a graph for every list of records that holds fewer
  different keys than \<open>frames\<close>, whatever duplicate keys, missing parents, cycles or
  inconsistent links the list holds, and the graph is the one of the embedding without a
  limit. The breadth-first loop and the walk terminate on every input (\<^const>\<open>bfs\<close> and
  \<^const>\<open>trace_to_roots\<close> are defined with their termination proofs); the walk nests at most one
  call more than there are keys.
\<close>

theorem build_returns_within_recursion_limit:
  assumes "card (pubkey ` set crate_list) < frames"
  shows "\<exists>g. build_supply_chain_graph_frames frames crate_list = Inr g
            \<and> build_supply_chain_graph crate_list = Inr g"
proof -
  have "card (fst ` set (fst (final_pass crate_list))) < frames"
    using assms by (simp add: final_keys_input)
  from build_lineages_frames_enough [OF this] show ?thesis
    unfolding build_frames_eq build_eq by simp
qed

theorem build_returns_within_recursion_limit_witness:
  "card (pubkey ` set duplicate_input) < 1000
   \<and> (\<exists>g. build_supply_chain_graph_frames 1000 duplicate_input = Inr g
            \<and> build_supply_chain_graph duplicate_input = Inr g)"
proof -
  have "card (pubkey ` set duplicate_input) < 1000" by code_simp
  then show ?thesis
    using build_returns_within_recursion_limit [of duplicate_input 1000] by blast
qed

text \<open>Claim C7 as stated fails on a chain of 1001 records under the default limit: even if all
  1000 calls were left to the walk, the lineage of the last record needs 1001 nested
  activations, and the builder raises \<^verbatim>\<open>RecursionError\<close>.\<close>

theorem recursion_limit_counterexample:
  "build_supply_chain_graph_frames 1000 (chain_input 1001) = Inl RecursionError"
  using chain_overflow [of 1000 1001] by simp

end
